theory Spec2Isabelle
  imports Complex_Main "HOL-Library.Multiset"
begin

section \<open>Data model (karger.hpp)\<close>

text \<open>
  The structures of the header, field by field. Names are the source's, but for \<open>n\<close>
  (\<open>n_vertices\<close>), the fields \<open>id\<close> and \<open>size\<close> of a subset (\<open>id_f\<close>, \<open>size_f\<close>), the structure
  of a cut (\<open>cut_uf\<close>) and the member functions \<open>find\<close>, \<open>merge\<close> and \<open>connected\<close> (\<open>find_uf\<close>,
  \<open>merge_uf\<close>, \<open>connected_uf\<close>).

  The index type \<open>node_t\<close> / \<open>T\<close> of the templates is modelled by \<open>nat\<close>. Every
  arithmetic operation of the code on that type is an increment of a loop counter below
  the vector's length, the addition of two subset sizes (bounded by the number of
  elements once the sizes are the subsets' cardinalities) and the decrement of
  \<open>nb_subsets\<close> after two distinct roots were found; none of them wraps on the states the
  theorems below are about, which is why the invariant \<open>uf_inv\<close> appears among their
  hypotheses.

  A function that mutates its object returns the object after the call. A result of type
  \<open>option\<close> is \<open>None\<close> where the C++ has no result: an index outside a vector, a
  distribution \<open>{0, m}\<close> with \<open>m < 0\<close>, a loop that never ends.

  The counter \<open>m\<close> of the contraction loops is an \<open>int\<close> of 32 bits and the product
  \<open>graph.n * INV_SQRT_2\<close> a \<open>double\<close>; both are modelled with their rounding and
  wrap-around written out (\<open>int32_of\<close>, \<open>round53\<close>).
\<close>

record Edge =
  tail :: nat
  head :: nat

record EdgesVectorGraph =
  n_vertices :: nat
  edges :: "Edge list"

record Subset =
  id_f :: nat
  size_f :: nat

record UnionFind =
  subsets :: "Subset list"
  nb_subsets :: nat

record GraphCut =
  cut_size :: nat
  cut_uf :: UnionFind

record ContractedGraph = EdgesVectorGraph +
  uf :: UnionFind

section \<open>UnionFind\<close>

text \<open>The constructor \<open>UnionFind(T n)\<close>: \<open>n\<close> singletons \<open>(i, 1)\<close>.\<close>

definition UnionFind_init :: "nat \<Rightarrow> UnionFind" where
  "UnionFind_init n =
     \<lparr>subsets = map (\<lambda>i. \<lparr>id_f = i, size_f = 1\<rparr>) [0..<n], nb_subsets = n\<rparr>"

text \<open>First loop of \<open>find\<close>: \<open>while (root != subsets[root].id) root = subsets[root].id\<close>.\<close>

partial_function (option) find_root :: "Subset list \<Rightarrow> nat \<Rightarrow> nat option" where
  "find_root ss r =
     (if length ss \<le> r then None
      else if r \<noteq> id_f (ss ! r) then find_root ss (id_f (ss ! r))
      else Some r)"

text \<open>
  Second loop of \<open>find\<close>:
  \<open>while (subsets[x].id != root) { auto id = subsets[x].id; subsets[x].id = root; x = id; }\<close>.
\<close>

partial_function (option) compress :: "Subset list \<Rightarrow> nat \<Rightarrow> nat \<Rightarrow> Subset list option" where
  "compress ss x r =
     (if length ss \<le> x then None
      else if id_f (ss ! x) \<noteq> r
           then compress (ss[x := (ss ! x)\<lparr>id_f := r\<rparr>]) (id_f (ss ! x)) r
      else Some ss)"

definition find_uf :: "UnionFind \<Rightarrow> nat \<Rightarrow> (nat \<times> UnionFind) option" where
  "find_uf u x =
     (case find_root (subsets u) x of
        None \<Rightarrow> None
      | Some r \<Rightarrow>
          (case compress (subsets u) x r of
             None \<Rightarrow> None
           | Some ss \<Rightarrow> Some (r, u\<lparr>subsets := ss\<rparr>)))"

text \<open>
  \<open>merge\<close>: the two finds, the early return, union by size (two assignments in the
  order of the source) and the decrement.
\<close>

definition attach :: "Subset list \<Rightarrow> nat \<Rightarrow> nat \<Rightarrow> Subset list" where
  "attach ss i j =
     (let ss1 = ss[i := (ss ! i)\<lparr>id_f := j\<rparr>]
      in ss1[j := (ss1 ! j)\<lparr>size_f := size_f (ss1 ! j) + size_f (ss1 ! i)\<rparr>])"

definition merge_uf :: "UnionFind \<Rightarrow> nat \<Rightarrow> nat \<Rightarrow> UnionFind option" where
  "merge_uf u x y =
     (case find_uf u x of
        None \<Rightarrow> None
      | Some (i, u1) \<Rightarrow>
          (case find_uf u1 y of
             None \<Rightarrow> None
           | Some (j, u2) \<Rightarrow>
               if i = j then Some u2
               else if size_f (subsets u2 ! i) < size_f (subsets u2 ! j)
                    then Some \<lparr>subsets = attach (subsets u2) i j, nb_subsets = nb_subsets u2 - 1\<rparr>
                    else Some \<lparr>subsets = attach (subsets u2) j i, nb_subsets = nb_subsets u2 - 1\<rparr>))"

text \<open>\<open>connected\<close>: \<open>find(x) == find(y)\<close>; both finds compress.\<close>

definition connected_uf :: "UnionFind \<Rightarrow> nat \<Rightarrow> nat \<Rightarrow> (bool \<times> UnionFind) option" where
  "connected_uf u x y =
     (case find_uf u x of
        None \<Rightarrow> None
      | Some (i, u1) \<Rightarrow>
          (case find_uf u1 y of
             None \<Rightarrow> None
           | Some (j, u2) \<Rightarrow> Some (i = j, u2)))"

subsection \<open>The invariant of the structure\<close>

definition is_root :: "Subset list \<Rightarrow> nat \<Rightarrow> bool" where
  "is_root ss x = (x < length ss \<and> id_f (ss ! x) = x)"

definition roots :: "Subset list \<Rightarrow> nat list" where
  "roots ss = filter (is_root ss) [0..<length ss]"

definition members :: "Subset list \<Rightarrow> nat \<Rightarrow> nat list" where
  "members ss r = filter (\<lambda>x. find_root ss x = Some r) [0..<length ss]"

text \<open>
  Every parent chain ends at a root, \<open>nb_subsets\<close> counts the roots, and the \<open>size\<close> of
  a root is the number of elements of its subset.
\<close>

definition chains_end :: "Subset list \<Rightarrow> bool" where
  "chains_end ss = (\<forall>x \<in> set [0..<length ss]. find_root ss x \<noteq> None)"

definition sizes_ok :: "Subset list \<Rightarrow> bool" where
  "sizes_ok ss = (\<forall>r \<in> set (roots ss). size_f (ss ! r) = length (members ss r))"

definition uf_inv :: "UnionFind \<Rightarrow> bool" where
  "uf_inv u =
     (chains_end (subsets u) \<and> nb_subsets u = length (roots (subsets u)) \<and> sizes_ok (subsets u))"

text \<open>The states a program can build: the constructor, then finds and merges of elements.\<close>

inductive reachable :: "nat \<Rightarrow> UnionFind \<Rightarrow> bool" for n where
  r_init: "reachable n (UnionFind_init n)"
| r_find: "reachable n u \<Longrightarrow> x < n \<Longrightarrow> find_uf u x = Some (r, u') \<Longrightarrow> reachable n u'"
| r_merge: "reachable n u \<Longrightarrow> x < n \<Longrightarrow> y < n \<Longrightarrow> merge_uf u x y = Some u' \<Longrightarrow> reachable n u'"

text \<open>The \<open>j\<close>-th ancestor of \<open>x\<close>: the nodes the first loop of \<open>find\<close> visits.\<close>

definition ancestor :: "Subset list \<Rightarrow> nat \<Rightarrow> nat \<Rightarrow> nat" where
  "ancestor ss j x = ((\<lambda>y. id_f (ss ! y)) ^^ j) x"

text \<open>Proof device: the root of \<open>x\<close>, when at most \<open>k\<close> parent links lead to it.\<close>

fun root_within :: "nat \<Rightarrow> Subset list \<Rightarrow> nat \<Rightarrow> nat option" where
  "root_within 0 ss x = (if x < length ss \<and> id_f (ss ! x) = x then Some x else None)"
| "root_within (Suc k) ss x =
     (if length ss \<le> x then None
      else if id_f (ss ! x) = x then Some x
      else root_within k ss (id_f (ss ! x)))"

section \<open>Graph cuts\<close>

text \<open>
  \<open>GraphCut::get_partitions\<close>. \<open>uf.subsets[0]\<close> is read before the loop, so a structure with
  no element gives no result. The loop compares the \<open>id\<close> fields; the structure being
  \<open>const\<close> here, no \<open>find\<close> is made.
\<close>

definition get_partitions :: "GraphCut \<Rightarrow> (nat list \<times> nat list) option" where
  "get_partitions c =
     (let ss = subsets (cut_uf c) in
      if ss = [] then None
      else Some (foldl (\<lambda>(P, Q) i. if id_f (ss ! i) = id_f (ss ! 0) then (P @ [i], Q) else (P, Q @ [i]))
                   ([], []) [0..<length ss]))"

text \<open>\<open>operator<\<close> of \<open>GraphCut\<close> and \<open>std::min(a, b)\<close>, which is \<open>b\<close> only when \<open>b < a\<close>.\<close>

definition min_cut :: "GraphCut \<Rightarrow> GraphCut \<Rightarrow> GraphCut" where
  "min_cut a b = (if cut_size b < cut_size a then b else a)"

section \<open>The contraction loop\<close>

text \<open>
  The engine \<open>mt\<close> is a state of any type \<open>'g\<close>, and \<open>std::uniform_int_distribution<>{0, m}(mt)\<close>
  a function \<open>draw\<close> that gives the number drawn and the next state. What the library
  promises about it is \<open>distribution_ok\<close>: the number lies in \<open>[0, m]\<close>.
\<close>

definition distribution_ok :: "('g \<Rightarrow> int \<Rightarrow> int \<times> 'g) \<Rightarrow> bool" where
  "distribution_ok draw = (\<forall>g m. 0 \<le> m \<longrightarrow> 0 \<le> fst (draw g m) \<and> fst (draw g m) \<le> m)"

text \<open>\<open>std::iter_swap\<close> on two positions of the same vector.\<close>

definition iter_swap :: "'a list \<Rightarrow> nat \<Rightarrow> nat \<Rightarrow> 'a list" where
  "iter_swap xs i j = xs[i := xs ! j, j := xs ! i]"

text \<open>
  The conversion of an integer to \<open>int\<close> (32 bits, two's complement): the value modulo
  \<open>2\<^sup>3\<^sup>2\<close> that lies in \<open>[-2\<^sup>3\<^sup>1, 2\<^sup>3\<^sup>1)\<close>.
\<close>

definition int32_of :: "int \<Rightarrow> int" where
  "int32_of x = (x + 2147483648) mod 4294967296 - 2147483648"

text \<open>
  The loop of \<open>karger_union_find\<close> and, with \<open>nb_vertices\<close> for \<open>2\<close>, of \<open>contract\<close>:
  \<open>for (int m = size(edges) - 1; uf.nb_subsets != k; ++start, --m)
       { iter_swap(start, start + dist{0, m}(mt)); uf.merge(start->tail, start->head); }\<close>.
  \<open>contraction_loop\<close> is the loop from a given cursor and counter: the iterator \<open>start\<close> is
  its index, \<open>m\<close> the value of the 32-bit counter. No result when the distribution is built
  with \<open>m < 0\<close>, when the number drawn is outside \<open>[0, m]\<close>, or when an index leaves the
  vector. The counter is decremented only after \<open>0 \<le> m\<close> was checked, and the number
  drawn is kept only within \<open>[0, m]\<close>: from a counter in the range of \<open>int\<close> neither
  leaves that range.
\<close>

function contraction_loop ::
  "('g \<Rightarrow> int \<Rightarrow> int \<times> 'g) \<Rightarrow> nat \<Rightarrow> 'g \<Rightarrow> UnionFind \<Rightarrow> Edge list \<Rightarrow> nat \<Rightarrow> int
     \<Rightarrow> ('g \<times> UnionFind \<times> Edge list \<times> nat) option" where
  "contraction_loop draw k g u es start m =
     (if nb_subsets u = k then Some (g, u, es, start)
      else if m < 0 then None
      else (case draw g m of
              (r, g') \<Rightarrow>
                if r < 0 \<or> m < r \<or> length es \<le> start + nat r then None
                else (let es' = iter_swap es start (start + nat r) in
                      case merge_uf u (tail (es' ! start)) (head (es' ! start)) of
                        None \<Rightarrow> None
                      | Some u' \<Rightarrow> contraction_loop draw k g' u' es' (Suc start) (m - 1))))"
  by pat_completeness auto
termination
  by (relation "measure (\<lambda>(draw, k, g, u, es, start, m). nat (m + 1))") auto

declare contraction_loop.simps [simp del]

text \<open>
  The \<open>for\<close> statement with its initialisation: the cursor at \<open>begin(edges)\<close>, and
  \<open>int m = size(edges) - 1\<close>, the conversion to \<open>int\<close> of a \<open>size_t\<close>. With no edge the
  counter starts at \<open>-1\<close>; with more than \<open>2\<^sup>3\<^sup>1\<close> edges it does not start at the last
  index (with \<open>2\<^sup>3\<^sup>1 + 1\<close> edges it starts at \<open>-2\<^sup>3\<^sup>1\<close>).
\<close>

definition contraction ::
  "('g \<Rightarrow> int \<Rightarrow> int \<times> 'g) \<Rightarrow> nat \<Rightarrow> 'g \<Rightarrow> UnionFind \<Rightarrow> Edge list
     \<Rightarrow> ('g \<times> UnionFind \<times> Edge list \<times> nat) option" where
  "contraction draw k g u es =
     contraction_loop draw k g u es 0 (int32_of (int (length es) - 1))"

section \<open>Karger's algorithm\<close>

text \<open>\<open>std::count_if\<close> with the predicate \<open>!uf.connected(e.tail, e.head)\<close>, whose finds compress.\<close>

fun count_if_not_connected :: "UnionFind \<Rightarrow> Edge list \<Rightarrow> (nat \<times> UnionFind) option" where
  "count_if_not_connected u [] = Some (0, u)"
| "count_if_not_connected u (e # es) =
     (case connected_uf u (tail e) (head e) of
        None \<Rightarrow> None
      | Some (b, u') \<Rightarrow>
          (case count_if_not_connected u' es of
             None \<Rightarrow> None
           | Some (c, u'') \<Rightarrow> Some (if \<not> b then Suc c else c, u'')))"

text \<open>
  \<open>karger_union_find\<close> takes the graph by reference and shuffles its edges: the graph after
  the call is part of the result.
\<close>

definition karger_union_find ::
  "('g \<Rightarrow> int \<Rightarrow> int \<times> 'g) \<Rightarrow> 'g \<Rightarrow> EdgesVectorGraph \<Rightarrow> ('g \<times> GraphCut \<times> EdgesVectorGraph) option" where
  "karger_union_find draw g graph =
     (case contraction draw 2 g (UnionFind_init (n_vertices graph)) (edges graph) of
        None \<Rightarrow> None
      | Some (g', u, es, start) \<Rightarrow>
          (case count_if_not_connected u (drop start es) of
             None \<Rightarrow> None
           | Some (c, u') \<Rightarrow> Some (g', \<lparr>cut_size = c, cut_uf = u'\<rparr>, graph\<lparr>edges := es\<rparr>)))"

section \<open>Karger-Stein\<close>

text \<open>\<open>std::copy_if\<close> with the same predicate (remove self-loops).\<close>

fun copy_if_not_connected :: "UnionFind \<Rightarrow> Edge list \<Rightarrow> (Edge list \<times> UnionFind) option" where
  "copy_if_not_connected u [] = Some ([], u)"
| "copy_if_not_connected u (e # es) =
     (case connected_uf u (tail e) (head e) of
        None \<Rightarrow> None
      | Some (b, u') \<Rightarrow>
          (case copy_if_not_connected u' es of
             None \<Rightarrow> None
           | Some (out, u'') \<Rightarrow> Some (if \<not> b then e # out else out, u'')))"

text \<open>
  The lambda \<open>contract\<close>: it copies the structure of its argument, shuffles the edges of
  its argument in place, and returns a new graph. The result holds the engine, the
  argument after the call and the graph returned.
\<close>

definition contract ::
  "('g \<Rightarrow> int \<Rightarrow> int \<times> 'g) \<Rightarrow> 'g \<Rightarrow> ContractedGraph \<Rightarrow> nat
     \<Rightarrow> ('g \<times> ContractedGraph \<times> ContractedGraph) option" where
  "contract draw g graph nb_vertices =
     (case contraction draw nb_vertices g (uf graph) (edges graph) of
        None \<Rightarrow> None
      | Some (g', u, es, start) \<Rightarrow>
          (case copy_if_not_connected u (drop start es) of
             None \<Rightarrow> None
           | Some (es', u') \<Rightarrow>
               Some (g', graph\<lparr>edges := es\<rparr>, \<lparr>n_vertices = nb_vertices, edges = es', uf = u'\<rparr>)))"

definition cut :: "ContractedGraph \<Rightarrow> GraphCut" where
  "cut graph = \<lparr>cut_size = length (edges graph), cut_uf = uf graph\<rparr>"

text \<open>
  \<open>node_t t = 1 + std::ceil(graph.n * INV_SQRT_2)\<close> with
  \<open>constexpr double INV_SQRT_2 = 1.0 / std::sqrt(2)\<close>, in IEEE 754 binary64 arithmetic
  (round to nearest, ties to even). A non-negative double is \<open>p / 2\<^sup>e\<close> for a natural number
  \<open>p\<close> of at most 53 significant bits; \<open>round53 p\<close> is the nearest natural number of at most
  53 significant bits, ties to even (\<open>shift53 p\<close> is the number of low bits that are
  dropped). \<open>std::sqrt(2)\<close> is \<open>0x1.6a09e667f3bcdp+0\<close> and \<open>INV_SQRT_2\<close>, its rounded inverse,
  is \<open>0x1.6a09e667f3bccp-1 = 6369051672525772 / 2\<^sup>5\<^sup>3\<close>. The conversion of \<open>graph.n\<close>
  to double is \<open>round53 n\<close> (it is \<open>n\<close> below \<open>2\<^sup>5\<^sup>3\<close>), the product is
  \<open>round53 (round53 n * 6369051672525772) / 2\<^sup>5\<^sup>3\<close>, \<open>std::ceil\<close> of it is exact, the
  addition of \<open>1\<close> is rounded again, and the conversion of the integral sum to \<open>node_t\<close>
  keeps its value.
\<close>

function shift53 :: "nat \<Rightarrow> nat" where
  "shift53 p = (if p < 9007199254740992 then 0 else Suc (shift53 (p div 2)))"
  by pat_completeness auto
termination
  by (relation "measure id") auto

declare shift53.simps [simp del]

definition round53 :: "nat \<Rightarrow> nat" where
  "round53 p =
     (let s = shift53 p; q = p div 2 ^ s; r = p mod 2 ^ s
      in if 2 ^ s < 2 * r \<or> (2 * r = 2 ^ s \<and> odd q) then (q + 1) * 2 ^ s else q * 2 ^ s)"

definition ceil_mul_INV_SQRT_2 :: "nat \<Rightarrow> nat" where
  "ceil_mul_INV_SQRT_2 n =
     (round53 (round53 n * 6369051672525772) + 9007199254740991) div 9007199254740992"

definition t_of :: "nat \<Rightarrow> nat" where
  "t_of n = round53 (1 + ceil_mul_INV_SQRT_2 n)"

text \<open>The variables of \<open>karger_stein_union_find\<close>; the head of \<open>graphs\<close> is the top of the stack.\<close>

record 'g ks_state =
  input_graph :: EdgesVectorGraph
  best_minimum_cut :: GraphCut
  graphs :: "ContractedGraph list"
  mt :: 'g

text \<open>
  The body of the main loop: pop a graph; a graph of at most six vertices is contracted
  to two and its cut compared with the best one; a larger one is contracted twice to \<open>t\<close>
  vertices, the second time from the edges as the first call left them, and both results
  are pushed. (\<open>top()\<close> of an empty stack has no result; the loop does not get there.)
\<close>

definition karger_stein_step ::
  "('g \<Rightarrow> int \<Rightarrow> int \<times> 'g) \<Rightarrow> 'g ks_state \<Rightarrow> 'g ks_state option" where
  "karger_stein_step draw s =
     (case graphs s of
        [] \<Rightarrow> None
      | graph # rest \<Rightarrow>
          if n_vertices graph \<le> 6 then
            (case contract draw (mt s) graph 2 of
               None \<Rightarrow> None
             | Some (g', graph', child) \<Rightarrow>
                 Some (s\<lparr>best_minimum_cut := min_cut (best_minimum_cut s) (cut child),
                         graphs := rest, mt := g'\<rparr>))
          else
            (case contract draw (mt s) graph (t_of (n_vertices graph)) of
               None \<Rightarrow> None
             | Some (g1, graph1, child1) \<Rightarrow>
                 (case contract draw g1 graph1 (t_of (n_vertices graph)) of
                    None \<Rightarrow> None
                  | Some (g2, graph2, child2) \<Rightarrow>
                      Some (s\<lparr>graphs := child2 # child1 # rest, mt := g2\<rparr>))))"

subsection \<open>The main loop ends\<close>

lemma contract_n_vertices:
  "contract draw g graph k = Some (g', graph', child) \<Longrightarrow> n_vertices child = k"
  by (auto simp: contract_def split: option.splits prod.splits)

lemma shift53_bounds:
  "p div 2 ^ shift53 p < 9007199254740992
   \<and> (0 < shift53 p \<longrightarrow> 4503599627370496 \<le> p div 2 ^ shift53 p)"
proof (induction p rule: shift53.induct)
  case (1 p)
  show ?case
  proof (cases "p < 9007199254740992")
    case True
    then have "shift53 p = 0" by (subst shift53.simps) simp
    then show ?thesis using True by simp
  next
    case False
    then have s: "shift53 p = Suc (shift53 (p div 2))" by (subst shift53.simps) simp
    have d: "p div 2 ^ Suc (shift53 (p div 2)) = (p div 2) div 2 ^ shift53 (p div 2)"
      by (simp add: div_mult2_eq)
    from "1.IH"[OF False] have IH: "(p div 2) div 2 ^ shift53 (p div 2) < 9007199254740992"
      "0 < shift53 (p div 2) \<longrightarrow> 4503599627370496 \<le> (p div 2) div 2 ^ shift53 (p div 2)"
      by simp_all
    have "4503599627370496 \<le> (p div 2) div 2 ^ shift53 (p div 2)"
    proof (cases "shift53 (p div 2)")
      case 0
      have "4503599627370496 \<le> p div 2" using False by simp
      then show ?thesis using 0 by simp
    next
      case (Suc k)
      then show ?thesis using IH(2) by simp
    qed
    then show ?thesis unfolding s d using IH(1) by simp
  qed
qed

lemma round53_upper: "9007199254740992 * round53 p \<le> 9007199254740993 * p"
proof -
  define s where "s = shift53 p"
  define A :: nat where "A = 2 ^ s"
  define q where "q = p div A"
  define r where "r = p mod A"
  have p: "p = q * A + r" by (simp add: q_def r_def)
  have R: "round53 p = (if A < 2 * r \<or> (2 * r = A \<and> odd q) then (q + 1) * A else q * A)"
    by (simp add: round53_def Let_def s_def A_def q_def r_def)
  show ?thesis
  proof (cases "A < 2 * r \<or> (2 * r = A \<and> odd q)")
    case False
    then have "round53 p = q * A" unfolding R by (simp only: if_False)
    then show ?thesis using p by simp
  next
    case True
    then have "round53 p = (q + 1) * A" unfolding R by (simp only: if_True)
    then have up: "round53 p = q * A + A" by simp
    from True have Ar: "A \<le> 2 * r" by auto
    have "s \<noteq> 0"
    proof
      assume "s = 0"
      then have "A = 1" "r = 0" by (simp_all add: A_def r_def)
      with True show False by simp
    qed
    then have "4503599627370496 \<le> q"
      using shift53_bounds[of p] by (simp add: s_def q_def A_def)
    then have qa: "4503599627370496 * A \<le> q * A" by (rule mult_le_mono1)
    define X where "X = q * A"
    have h1: "4503599627370496 * A \<le> X" using qa by (simp add: X_def)
    have "4503599627370496 * A \<le> 4503599627370496 * (2 * r)" using Ar by (rule mult_le_mono2)
    then have h2: "4503599627370496 * A \<le> 9007199254740992 * r" by simp
    have "9007199254740992 * A = 4503599627370496 * A + 4503599627370496 * A" by simp
    also have "\<dots> \<le> X + 9007199254740992 * r" using h1 h2 by (rule add_mono)
    finally have "9007199254740992 * A \<le> X + 9007199254740992 * r" .
    then have "9007199254740992 * (X + A) \<le> 9007199254740993 * (X + r)"
      by (simp add: algebra_simps)
    then show ?thesis unfolding up X_def using p by simp
  qed
qed

lemma round53_pos: "0 < p \<Longrightarrow> 0 < round53 p"
proof -
  assume pos: "0 < p"
  define s where "s = shift53 p"
  have q: "0 < p div 2 ^ s"
  proof (cases s)
    case 0
    then show ?thesis using pos by simp
  next
    case (Suc k)
    then have "4503599627370496 \<le> p div 2 ^ s" using shift53_bounds[of p] by (simp add: s_def)
    then show ?thesis by simp
  qed
  then show ?thesis by (auto simp: round53_def Let_def s_def)
qed

lemma ceil_mul_INV_SQRT_2_pos: "0 < n \<Longrightarrow> 0 < ceil_mul_INV_SQRT_2 n"
proof -
  assume "0 < n"
  then have "0 < round53 n * 6369051672525772" using round53_pos[of n] by simp
  then have "0 < round53 (round53 n * 6369051672525772)" by (rule round53_pos)
  then have "9007199254740992 \<le> round53 (round53 n * 6369051672525772) + 9007199254740991"
    by simp
  then have "9007199254740992 div 9007199254740992
      \<le> (round53 (round53 n * 6369051672525772) + 9007199254740991) div (9007199254740992::nat)"
    by (rule div_le_mono)
  then show ?thesis by (simp add: ceil_mul_INV_SQRT_2_def)
qed

lemma ceil_mul_INV_SQRT_2_less: "6 < n \<Longrightarrow> Suc (ceil_mul_INV_SQRT_2 n) < n"
proof -
  assume n: "6 < n"
  define R1 where "R1 = round53 n"
  define R where "R = round53 (R1 * 6369051672525772)"
  have 1: "9007199254740992 * R1 \<le> 9007199254740993 * n" unfolding R1_def by (rule round53_upper)
  have 2: "9007199254740992 * R \<le> 9007199254740993 * (R1 * 6369051672525772)"
    unfolding R_def by (rule round53_upper)
  have "R \<le> (n - 2) * 9007199254740992" using 1 2 n by linarith
  then have "R + 9007199254740991 < (n - 1) * 9007199254740992" using n by linarith
  then have "(R + 9007199254740991) div 9007199254740992 < n - 1"
    by (simp add: less_mult_imp_div_less)
  then show ?thesis unfolding ceil_mul_INV_SQRT_2_def R_def[symmetric] R1_def[symmetric]
    by simp
qed

lemma round53_lower: "2 \<le> p \<Longrightarrow> 2 \<le> round53 p"
proof -
  assume p: "2 \<le> p"
  define s where "s = shift53 p"
  have q: "2 \<le> p div 2 ^ s * 2 ^ s"
  proof (cases s)
    case 0
    then show ?thesis using p by simp
  next
    case (Suc k)
    then have "4503599627370496 \<le> p div 2 ^ s" using shift53_bounds[of p] by (simp add: s_def)
    moreover have "(1::nat) \<le> 2 ^ s" by simp
    ultimately have "4503599627370496 * 1 \<le> p div 2 ^ s * 2 ^ s" by (rule mult_le_mono)
    then show ?thesis by simp
  qed
  have "p div 2 ^ s * 2 ^ s \<le> round53 p"
    by (simp add: round53_def Let_def s_def)
  with q show ?thesis by simp
qed

lemma t_of_ge2: "0 < n \<Longrightarrow> 2 \<le> t_of n"
  unfolding t_of_def using ceil_mul_INV_SQRT_2_pos[of n] by (intro round53_lower) simp

lemma t_of_less: "6 < n \<Longrightarrow> t_of n < n"
proof -
  assume n: "6 < n"
  define R1 where "R1 = round53 n"
  define R where "R = round53 (R1 * 6369051672525772)"
  define c where "c = (R + 9007199254740991) div 9007199254740992"
  have 1: "9007199254740992 * R1 \<le> 9007199254740993 * n" unfolding R1_def by (rule round53_upper)
  have 2: "9007199254740992 * R \<le> 9007199254740993 * (R1 * 6369051672525772)"
    unfolding R_def by (rule round53_upper)
  have 3: "9007199254740992 * c \<le> R + 9007199254740991"
    unfolding c_def by (rule times_div_less_eq_dividend)
  have 4: "9007199254740992 * t_of n \<le> 9007199254740993 * (1 + c)"
    unfolding t_of_def ceil_mul_INV_SQRT_2_def c_def R_def R1_def by (rule round53_upper)
  have 5: "1000 * R \<le> 6377097072356622336 * n" using 1 2 by linarith
  have 6: "1000 * c \<le> 708 * n + 1000" using 3 5 by linarith
  have d4: "9007199254740992 * t_of n \<le> 9007199254740993 + 9007199254740993 * c"
    using 4 by simp
  have 7: "9007199254740992000 * t_of n \<le> 18014398509481986000 + 6377097072356623044 * n"
    using d4 6 by linarith
  show ?thesis using 7 n by linarith
qed

lemma karger_stein_step_decreases:
  assumes "karger_stein_step draw s = Some s'"
  shows "sum_list (map (\<lambda>c. 3 ^ n_vertices c) (graphs s'))
       < sum_list (map (\<lambda>c. (3::nat) ^ n_vertices c) (graphs s))"
proof (cases "graphs s")
  case Nil
  then show ?thesis using assms by (simp add: karger_stein_step_def)
next
  case (Cons graph rest)
  show ?thesis
  proof (cases "n_vertices graph \<le> 6")
    case True
    then have "graphs s' = rest"
      using assms Cons by (auto simp: karger_stein_step_def split: option.splits)
    then show ?thesis using Cons by simp
  next
    case False
    define t where "t = t_of (n_vertices graph)"
    from assms Cons False obtain g1 graph1 child1 g2 graph2 child2 where
      c1: "contract draw (mt s) graph t = Some (g1, graph1, child1)"
      and c2: "contract draw g1 graph1 t = Some (g2, graph2, child2)"
      and s': "graphs s' = child2 # child1 # rest"
      by (auto simp: karger_stein_step_def t_def split: option.splits)
    have n1: "n_vertices child1 = t" using c1 by (rule contract_n_vertices)
    have n2: "n_vertices child2 = t" using c2 by (rule contract_n_vertices)
    have "Suc t \<le> n_vertices graph" using t_of_less[of "n_vertices graph"] False by (simp add: t_def)
    then have "(3::nat) ^ Suc t \<le> 3 ^ n_vertices graph" by (rule power_increasing) simp
    then have "3 * (3::nat) ^ t \<le> 3 ^ n_vertices graph" by simp
    moreover have "(0::nat) < 3 ^ t" by simp
    ultimately have "(3::nat) ^ t + 3 ^ t < 3 ^ n_vertices graph" by linarith
    then show ?thesis using Cons s' n1 n2 by simp
  qed
qed

text \<open>The main loop \<open>while (!graphs.empty())\<close>.\<close>

function karger_stein_loop ::
  "('g \<Rightarrow> int \<Rightarrow> int \<times> 'g) \<Rightarrow> 'g ks_state \<Rightarrow> 'g ks_state option" where
  "karger_stein_loop draw s =
     (if graphs s = [] then Some s
      else (case karger_stein_step draw s of
              None \<Rightarrow> None
            | Some s' \<Rightarrow> karger_stein_loop draw s'))"
  by pat_completeness auto
termination
proof (relation "measure (\<lambda>(draw, s). sum_list (map (\<lambda>c. 3 ^ n_vertices c) (graphs s)))", goal_cases)
  case 1
  show ?case by simp
next
  case (2 draw s s')
  then show ?case using karger_stein_step_decreases[of draw s s'] by simp
qed

declare karger_stein_loop.simps [simp del]

text \<open>
  \<open>karger_stein_union_find\<close>: the sentinel \<open>GraphCut{input_graph.n, {{}}}\<close>, whose structure
  is \<open>UnionFind(0)\<close>, and the first graph of the stack, a copy of the input's edges with
  the \<open>n\<close> singletons. The state after the loop is returned; the function's value is
  its \<open>best_minimum_cut\<close>.
\<close>

definition karger_stein_union_find ::
  "('g \<Rightarrow> int \<Rightarrow> int \<times> 'g) \<Rightarrow> 'g \<Rightarrow> EdgesVectorGraph \<Rightarrow> 'g ks_state option" where
  "karger_stein_union_find draw g input =
     karger_stein_loop draw
       \<lparr>input_graph = input,
        best_minimum_cut = \<lparr>cut_size = n_vertices input, cut_uf = UnionFind_init 0\<rparr>,
        graphs = [\<lparr>n_vertices = n_vertices input, edges = edges input,
                   uf = UnionFind_init (n_vertices input)\<rparr>],
        mt = g\<rparr>"

section \<open>Graphs and partitions, for the statements\<close>

definition edges_ok :: "nat \<Rightarrow> Edge list \<Rightarrow> bool" where
  "edges_ok n es = (\<forall>e \<in> set es. tail e < n \<and> head e < n)"

definition edge_rel :: "Edge list \<Rightarrow> (nat \<times> nat) set" where
  "edge_rel es = (\<lambda>e. (tail e, head e)) ` set es \<union> (\<lambda>e. (head e, tail e)) ` set es"

text \<open>A graph is connected when every two vertices are joined by a path of edges.\<close>

definition connected_graph :: "EdgesVectorGraph \<Rightarrow> bool" where
  "connected_graph G =
     (\<forall>x < n_vertices G. \<forall>y < n_vertices G. (x, y) \<in> (edge_rel (edges G))\<^sup>*)"

text \<open>Two elements are in the same subset.\<close>

definition uf_rel :: "UnionFind \<Rightarrow> (nat \<times> nat) set" where
  "uf_rel u = {(x, y). x < length (subsets u) \<and> y < length (subsets u)
                 \<and> find_root (subsets u) x = find_root (subsets u) y}"

text \<open>
  A contracted graph is connected when every two vertices are joined by a path whose
  steps are edges or pairs of vertices already merged.
\<close>

definition connected_over :: "UnionFind \<Rightarrow> Edge list \<Rightarrow> bool" where
  "connected_over u es =
     (\<forall>x < length (subsets u). \<forall>y < length (subsets u). (x, y) \<in> (uf_rel u \<union> edge_rel es)\<^sup>*)"

text \<open>An edge crosses the partition of \<open>u\<close>.\<close>

definition crossing :: "UnionFind \<Rightarrow> Edge \<Rightarrow> bool" where
  "crossing u e = (find_root (subsets u) (tail e) \<noteq> find_root (subsets u) (head e))"

section \<open>Properties of the union-find structure\<close>

subsection \<open>Roots reached within a number of links\<close>


lemma root_within_Suc: "root_within k ss x = Some r \<Longrightarrow> root_within (Suc k) ss x = Some r"
proof (induction k arbitrary: x)
  case 0
  then show ?case by (auto split: if_splits)
next
  case (Suc k)
  show ?case
  proof (cases "length ss \<le> x \<or> id_f (ss ! x) = x")
    case True
    with Suc.prems show ?thesis by (auto split: if_splits)
  next
    case False
    with Suc.prems have "root_within k ss (id_f (ss ! x)) = Some r" by simp
    from Suc.IH[OF this] have "root_within (Suc k) ss (id_f (ss ! x)) = Some r" .
    moreover have "root_within (Suc (Suc k)) ss x = root_within (Suc k) ss (id_f (ss ! x))"
      using False by (subst root_within.simps(2)) simp
    ultimately show ?thesis by simp
  qed
qed

lemma root_within_mono: "root_within k ss x = Some r \<Longrightarrow> k \<le> k' \<Longrightarrow> root_within k' ss x = Some r"
  by (induction k' ) (auto simp: le_Suc_eq root_within_Suc simp del: root_within.simps)

lemma root_within_root: "root_within k ss x = Some r \<Longrightarrow> is_root ss r"
  by (induction k arbitrary: x) (auto simp: is_root_def split: if_splits)

lemma root_within_less: "root_within k ss x = Some r \<Longrightarrow> x < length ss"
  by (cases k) (auto split: if_splits)

lemma root_within_det:
  assumes "root_within k ss x = Some r" "root_within k' ss x = Some r'"
  shows "r = r'"
proof -
  have "root_within (max k k') ss x = Some r" using assms(1) by (rule root_within_mono) simp
  moreover have "root_within (max k k') ss x = Some r'" using assms(2) by (rule root_within_mono) simp
  ultimately show ?thesis by simp
qed

lemma is_root_within: "is_root ss r \<Longrightarrow> root_within k ss r = Some r"
  by (cases k) (auto simp: is_root_def)

lemma root_within_find_root: "root_within k ss x = Some r \<Longrightarrow> find_root ss x = Some r"
proof (induction k arbitrary: x)
  case 0
  then show ?case by (subst find_root.simps) (auto split: if_splits)
next
  case (Suc k)
  then show ?case by (subst find_root.simps) (auto split: if_splits)
qed

lemma find_root_root_within:
  assumes "find_root ss x = Some r"
  shows "\<exists>k. root_within k ss x = Some r"
proof -
  have step: "\<exists>k. root_within k ss x = Some r"
    if IH: "\<And>a b y. f a b = Some y \<Longrightarrow> \<exists>k. root_within k a b = Some y"
    and eq: "(if length ss \<le> x then None
              else if x \<noteq> id_f (ss ! x) then f ss (id_f (ss ! x)) else Some x) = Some r"
    for f ss x r
  proof (cases "x = id_f (ss ! x)")
    case True
    with eq have "root_within 0 ss x = Some r" by (auto split: if_splits)
    then show ?thesis ..
  next
    case False
    with eq have lt: "x < length ss" and fr: "f ss (id_f (ss ! x)) = Some r"
      by (auto split: if_splits)
    from IH[OF fr] obtain k where "root_within k ss (id_f (ss ! x)) = Some r" ..
    with False lt have "root_within (Suc k) ss x = Some r" by auto
    then show ?thesis ..
  qed
  show ?thesis
    by (rule find_root.raw_induct[where P = "\<lambda>ss x r. \<exists>k. root_within k ss x = Some r", OF step assms])
qed

lemma find_root_iff: "find_root ss x = Some r \<longleftrightarrow> (\<exists>k. root_within k ss x = Some r)"
  using find_root_root_within root_within_find_root by blast

subsection \<open>Path compression\<close>

lemma ancestor_0: "ancestor ss 0 x = x"
  by (simp add: ancestor_def)

lemma ancestor_Suc: "ancestor ss (Suc j) x = ancestor ss j (id_f (ss ! x))"
  by (simp add: ancestor_def funpow_Suc_right del: funpow.simps)

lemma ancestor_Suc': "ancestor ss (Suc j) x = id_f (ss ! ancestor ss j x)"
  by (simp add: ancestor_def)

lemma ancestor_fix: "id_f (ss ! x) = x \<Longrightarrow> ancestor ss j x = x"
  by (induction j) (simp_all add: ancestor_0 ancestor_Suc)

lemma root_within_ancestor:
  "root_within k ss p = Some r \<Longrightarrow> root_within k ss (ancestor ss j p) = Some r"
proof (induction j arbitrary: p k)
  case 0
  then show ?case by (simp add: ancestor_0)
next
  case (Suc j)
  show ?case
  proof (cases "id_f (ss ! p) = p")
    case True
    then show ?thesis using Suc.prems by (simp add: ancestor_fix)
  next
    case False
    with Suc.prems obtain k' where k: "k = Suc k'"
      by (cases k) (auto split: if_splits)
    with Suc.prems False have "root_within k' ss (id_f (ss ! p)) = Some r"
      by (auto split: if_splits)
    from Suc.IH[OF this] have "root_within k' ss (ancestor ss (Suc j) p) = Some r"
      by (simp add: ancestor_Suc)
    then show ?thesis unfolding k by (rule root_within_Suc)
  qed
qed

lemma not_own_ancestor:
  "root_within k ss x = Some r \<Longrightarrow> id_f (ss ! x) \<noteq> x \<Longrightarrow> ancestor ss j (id_f (ss ! x)) \<noteq> x"
proof (induction k)
  case 0
  then show ?case by (auto split: if_splits)
next
  case (Suc k)
  then have p: "root_within k ss (id_f (ss ! x)) = Some r" by (auto split: if_splits)
  show ?case
  proof
    assume "ancestor ss j (id_f (ss ! x)) = x"
    with root_within_ancestor[OF p, of j] have "root_within k ss x = Some r" by simp
    with Suc.IH Suc.prems(2) \<open>ancestor ss j (id_f (ss ! x)) = x\<close> show False by simp
  qed
qed

lemma ancestor_update:
  "(\<And>i. i < j \<Longrightarrow> ancestor ss i p \<noteq> x) \<Longrightarrow> ancestor (ss[x := v]) j p = ancestor ss j p"
proof (induction j)
  case 0
  show ?case by (simp add: ancestor_0)
next
  case (Suc j)
  then have "ancestor (ss[x := v]) j p = ancestor ss j p" by simp
  moreover have "ancestor ss j p \<noteq> x" using Suc.prems by simp
  ultimately show ?case by (simp add: ancestor_Suc')
qed

text \<open>One iteration of the second loop keeps every root.\<close>

lemma repoint_root_within:
  assumes x: "x < length ss" "id_f (ss ! x) \<noteq> x" and xr: "root_within kx ss x = Some r"
  shows "root_within k ss y = Some s \<Longrightarrow> root_within k (ss[x := (ss ! x)\<lparr>id_f := r\<rparr>]) y = Some s"
proof (induction k arbitrary: y)
  case 0
  then have "y \<noteq> x" using x by (auto split: if_splits)
  with 0 show ?case by (auto split: if_splits)
next
  case (Suc k)
  let ?ss = "ss[x := (ss ! x)\<lparr>id_f := r\<rparr>]"
  have rr: "is_root ss r" using xr by (rule root_within_root)
  then have rx: "r \<noteq> x" using x by (auto simp: is_root_def)
  have rr': "is_root ?ss r" using rr rx by (simp add: is_root_def)
  show ?case
  proof (cases "id_f (ss ! y) = y")
    case True
    then have "y \<noteq> x" using x by auto
    with Suc.prems True show ?thesis by (auto split: if_splits)
  next
    case False
    with Suc.prems have y: "y < length ss" and p: "root_within k ss (id_f (ss ! y)) = Some s"
      by (auto split: if_splits)
    from Suc.IH[OF p] have IH: "root_within k ?ss (id_f (ss ! y)) = Some s" .
    show ?thesis
    proof (cases "y = x")
      case True
      have "s = r" using root_within_det[OF Suc.prems[unfolded True] xr] .
      then show ?thesis using True x rx is_root_within[OF rr', of k] by simp
    next
      case False
      then show ?thesis using IH y \<open>id_f (ss ! y) \<noteq> y\<close> by simp
    qed
  qed
qed

lemma compress_Some:
  "root_within k ss x = Some r \<Longrightarrow>
   \<exists>ss'. compress ss x r = Some ss' \<and> length ss' = length ss \<and> map size_f ss' = map size_f ss
     \<and> (\<forall>y kk s. root_within kk ss y = Some s \<longrightarrow> root_within kk ss' y = Some s)"
proof (induction k arbitrary: ss x)
  case 0
  then show ?case by (subst compress.simps) (auto split: if_splits)
next
  case (Suc k)
  have lt: "x < length ss" using Suc.prems by (rule root_within_less)
  show ?case
  proof (cases "id_f (ss ! x) = r")
    case True
    then show ?thesis using lt by (subst compress.simps) auto
  next
    case False
    let ?ss = "ss[x := (ss ! x)\<lparr>id_f := r\<rparr>]"
    from False Suc.prems have nr: "id_f (ss ! x) \<noteq> x" and p: "root_within k ss (id_f (ss ! x)) = Some r"
      by (auto split: if_splits)
    have p': "root_within k ?ss (id_f (ss ! x)) = Some r"
      using repoint_root_within[OF lt nr Suc.prems p] .
    from Suc.IH[OF p'] obtain ss' where ss': "compress ?ss (id_f (ss ! x)) r = Some ss'"
      "length ss' = length ?ss" "map size_f ss' = map size_f ?ss"
      "\<forall>y kk s. root_within kk ?ss y = Some s \<longrightarrow> root_within kk ss' y = Some s" by blast
    have c: "compress ss x r = Some ss'"
      using False lt ss'(1) by (subst compress.simps) simp
    have sz: "map size_f ?ss = map size_f ss"
      using lt by (simp add: map_update list_update_same_conv[THEN iffD2])
    have "\<forall>y kk s. root_within kk ss y = Some s \<longrightarrow> root_within kk ss' y = Some s"
      using ss'(4) repoint_root_within[OF lt nr Suc.prems] by blast
    with c ss'(2,3) sz show ?thesis by simp
  qed
qed

lemma compress_frame:
  "root_within k ss x = Some r \<Longrightarrow> compress ss x r = Some ss' \<Longrightarrow>
   (\<And>j. ancestor ss j x \<noteq> y) \<Longrightarrow> ss' ! y = ss ! y"
proof (induction k arbitrary: ss x)
  case 0
  then show ?case by (subst (asm) compress.simps) (auto split: if_splits)
next
  case (Suc k)
  have lt: "x < length ss" using Suc.prems(1) by (rule root_within_less)
  show ?case
  proof (cases "id_f (ss ! x) = r")
    case True
    then show ?thesis using lt Suc.prems(2) by (subst (asm) compress.simps) auto
  next
    case False
    let ?ss = "ss[x := (ss ! x)\<lparr>id_f := r\<rparr>]"
    from False Suc.prems have nr: "id_f (ss ! x) \<noteq> x" and p: "root_within k ss (id_f (ss ! x)) = Some r"
      by (auto split: if_splits)
    have p': "root_within k ?ss (id_f (ss ! x)) = Some r"
      using repoint_root_within[OF lt nr Suc.prems(1) p] .
    have c: "compress ?ss (id_f (ss ! x)) r = Some ss'"
      using Suc.prems(2) False lt by (subst (asm) compress.simps) simp
    have yx: "y \<noteq> x" using Suc.prems(3)[of 0] by (simp add: ancestor_0)
    have same: "ancestor ?ss j (id_f (ss ! x)) = ancestor ss j (id_f (ss ! x))" for j
      by (rule ancestor_update) (rule not_own_ancestor[OF Suc.prems(1) nr])
    have "ancestor ?ss j (id_f (ss ! x)) \<noteq> y" for j
      using Suc.prems(3)[of "Suc j"] same[of j] by (simp add: ancestor_Suc)
    from Suc.IH[OF p' c this] have "ss' ! y = ?ss ! y" .
    with yx show ?thesis by simp
  qed
qed

lemma compress_visited:
  "root_within k ss x = Some r \<Longrightarrow> compress ss x r = Some ss' \<Longrightarrow>
   id_f (ss' ! ancestor ss j x) = r"
proof (induction k arbitrary: ss x j)
  case 0
  then have "id_f (ss ! x) = x" "x = r" "ss' = ss"
    by (subst (asm) compress.simps, auto split: if_splits)+
  then show ?case by (simp add: ancestor_fix)
next
  case (Suc k)
  have lt: "x < length ss" using Suc.prems(1) by (rule root_within_less)
  have rr: "is_root ss r" using Suc.prems(1) by (rule root_within_root)
  show ?case
  proof (cases "id_f (ss ! x) = r")
    case True
    then have eq: "ss' = ss" using lt Suc.prems(2) by (subst (asm) compress.simps) auto
    show ?thesis
    proof (cases j)
      case 0
      then show ?thesis using True eq by (simp add: ancestor_0)
    next
      case (Suc j')
      then show ?thesis using True eq rr by (simp add: ancestor_Suc ancestor_fix is_root_def)
    qed
  next
    case False
    let ?ss = "ss[x := (ss ! x)\<lparr>id_f := r\<rparr>]"
    from False Suc.prems have nr: "id_f (ss ! x) \<noteq> x" and p: "root_within k ss (id_f (ss ! x)) = Some r"
      by (auto split: if_splits)
    have p': "root_within k ?ss (id_f (ss ! x)) = Some r"
      using repoint_root_within[OF lt nr Suc.prems(1) p] .
    have c: "compress ?ss (id_f (ss ! x)) r = Some ss'"
      using Suc.prems(2) False lt by (subst (asm) compress.simps) simp
    have same: "ancestor ?ss j (id_f (ss ! x)) = ancestor ss j (id_f (ss ! x))" for j
      by (rule ancestor_update) (rule not_own_ancestor[OF Suc.prems(1) nr])
    show ?thesis
    proof (cases j)
      case 0
      have "ancestor ?ss i (id_f (ss ! x)) \<noteq> x" for i
        using same[of i] not_own_ancestor[OF Suc.prems(1) nr, of i] by simp
      from compress_frame[OF p' c this] have "ss' ! x = ?ss ! x" .
      then show ?thesis using 0 lt by (simp add: ancestor_0)
    next
      case (Suc j')
      from Suc.IH[OF p' c, of j'] show ?thesis using Suc same[of j'] by (simp add: ancestor_Suc)
    qed
  qed
qed

subsection \<open>\<open>find\<close> keeps the partition\<close>

lemma chains_endD: "chains_end ss \<Longrightarrow> x < length ss \<Longrightarrow> \<exists>r. find_root ss x = Some r"
  by (auto simp: chains_end_def)

lemma find_root_less: "find_root ss x = Some r \<Longrightarrow> x < length ss"
  by (auto simp: find_root_iff dest: root_within_less)

lemma find_root_is_root: "find_root ss x = Some r \<Longrightarrow> is_root ss r"
  by (auto simp: find_root_iff dest: root_within_root)

lemma is_root_find_root: "is_root ss r \<Longrightarrow> find_root ss r = Some r"
  by (rule root_within_find_root[OF is_root_within[of ss r 0]])

lemma is_root_iff: "is_root ss r \<longleftrightarrow> find_root ss r = Some r"
  using find_root_is_root is_root_find_root by blast

lemma find_root_det_eq:
  assumes "\<And>y s. find_root ss y = Some s \<Longrightarrow> find_root ss' y = Some s"
    and "chains_end ss" "length ss' = length ss"
  shows "find_root ss' y = find_root ss y"
proof (cases "y < length ss")
  case True
  with assms(2) obtain s where "find_root ss y = Some s" by (auto dest: chains_endD)
  with assms(1) show ?thesis by simp
next
  case False
  then have "find_root ss y = None" "find_root ss' y = None"
    using assms(3) by (subst find_root.simps, simp)+
  then show ?thesis by simp
qed

lemma root_within_ancestor_ex: "root_within k ss x = Some r \<Longrightarrow> \<exists>j. ancestor ss j x = r"
proof (induction k arbitrary: x)
  case 0
  then have "ancestor ss 0 x = r" by (auto simp: ancestor_0 split: if_splits)
  then show ?case ..
next
  case (Suc k)
  show ?case
  proof (cases "id_f (ss ! x) = x")
    case True
    with Suc.prems have "ancestor ss 0 x = r" by (auto simp: ancestor_0 split: if_splits)
    then show ?thesis ..
  next
    case False
    with Suc.prems have "root_within k ss (id_f (ss ! x)) = Some r" by (auto split: if_splits)
    from Suc.IH[OF this] obtain j where "ancestor ss j (id_f (ss ! x)) = r" ..
    then have "ancestor ss (Suc j) x = r" by (simp add: ancestor_Suc)
    then show ?thesis ..
  qed
qed

lemma ancestor_root_unique:
  assumes "find_root ss x = Some r" "is_root ss r'" "ancestor ss j x = r'"
  shows "r' = r"
proof -
  from assms(1) obtain k where "root_within k ss x = Some r" by (auto simp: find_root_iff)
  from root_within_ancestor[OF this, of j] assms(3) have "root_within k ss r' = Some r" by simp
  with is_root_within[OF assms(2), of k] show ?thesis by simp
qed

text \<open>What one call of \<open>find\<close> does to a well-formed forest.\<close>

lemma find_uf_Some:
  assumes ce: "chains_end (subsets u)" and x: "x < length (subsets u)"
  shows "\<exists>r ss'. find_uf u x = Some (r, u\<lparr>subsets := ss'\<rparr>)
     \<and> find_root (subsets u) x = Some r
     \<and> compress (subsets u) x r = Some ss'
     \<and> length ss' = length (subsets u)
     \<and> map size_f ss' = map size_f (subsets u)
     \<and> (\<forall>y. find_root ss' y = find_root (subsets u) y)"
proof -
  from chains_endD[OF ce x] obtain r where r: "find_root (subsets u) x = Some r" ..
  then obtain k where k: "root_within k (subsets u) x = Some r" by (auto simp: find_root_iff)
  from compress_Some[OF k] obtain ss' where ss': "compress (subsets u) x r = Some ss'"
    "length ss' = length (subsets u)" "map size_f ss' = map size_f (subsets u)"
    "\<forall>y kk s. root_within kk (subsets u) y = Some s \<longrightarrow> root_within kk ss' y = Some s" by blast
  have "find_root ss' y = find_root (subsets u) y" for y
  proof (rule find_root_det_eq[OF _ ce ss'(2)])
    fix y s assume "find_root (subsets u) y = Some s"
    then show "find_root ss' y = Some s" using ss'(4) by (auto simp: find_root_iff)
  qed
  moreover have "find_uf u x = Some (r, u\<lparr>subsets := ss'\<rparr>)"
    by (simp add: find_uf_def r ss'(1))
  ultimately show ?thesis using r ss'(1,2,3) by blast
qed

lemma roots_cong:
  "length ss' = length ss \<Longrightarrow> (\<And>y. find_root ss' y = find_root ss y) \<Longrightarrow> roots ss' = roots ss"
  by (simp add: roots_def is_root_iff cong: filter_cong)

lemma members_cong:
  "length ss' = length ss \<Longrightarrow> (\<And>y. find_root ss' y = find_root ss y) \<Longrightarrow> members ss' r = members ss r"
  by (simp add: members_def)

lemma chains_end_cong:
  "length ss' = length ss \<Longrightarrow> (\<And>y. find_root ss' y = find_root ss y) \<Longrightarrow> chains_end ss' = chains_end ss"
  by (simp add: chains_end_def)

lemma sizes_ok_cong:
  assumes "length ss' = length ss" "\<And>y. find_root ss' y = find_root ss y"
    "map size_f ss' = map size_f ss" "sizes_ok ss"
  shows "sizes_ok ss'"
proof -
  have "size_f (ss' ! r) = size_f (ss ! r)" if "r < length ss" for r
    using that assms(1) nth_map[of r ss' size_f] nth_map[of r ss size_f] assms(3) by simp
  moreover have "r < length ss" if "r \<in> set (roots ss)" for r
    using that by (simp add: roots_def)
  ultimately show ?thesis
    using assms(4) roots_cong[OF assms(1,2)] members_cong[OF assms(1,2)]
    by (simp add: sizes_ok_def)
qed

lemma find_uf_inv:
  assumes "uf_inv u" "x < length (subsets u)" "find_uf u x = Some (r, u')"
  shows "uf_inv u' \<and> length (subsets u') = length (subsets u) \<and> nb_subsets u' = nb_subsets u
    \<and> (\<forall>y. find_root (subsets u') y = find_root (subsets u) y)
    \<and> map size_f (subsets u') = map size_f (subsets u)
    \<and> find_root (subsets u) x = Some r"
proof -
  have ce: "chains_end (subsets u)" using assms(1) by (simp add: uf_inv_def)
  from find_uf_Some[OF ce assms(2)] assms(3) obtain ss' where
    u': "u' = u\<lparr>subsets := ss'\<rparr>" and r: "find_root (subsets u) x = Some r"
    and len: "length ss' = length (subsets u)" and sz: "map size_f ss' = map size_f (subsets u)"
    and fr: "\<And>y. find_root ss' y = find_root (subsets u) y" by auto
  have "uf_inv u'"
    using assms(1) chains_end_cong[OF len fr] roots_cong[OF len fr] sizes_ok_cong[OF len fr sz]
    by (simp add: uf_inv_def u')
  then show ?thesis using len sz fr r by (simp add: u')
qed

subsection \<open>Attaching one root under another\<close>

lemma attach_length: "length (attach ss a b) = length ss"
  by (simp add: attach_def Let_def)

lemma attach_id:
  "a < length ss \<Longrightarrow> b < length ss \<Longrightarrow> a \<noteq> b \<Longrightarrow> z < length ss \<Longrightarrow>
   id_f (attach ss a b ! z) = (if z = a then b else id_f (ss ! z))"
  by (auto simp: attach_def Let_def nth_list_update)

lemma attach_size:
  "a < length ss \<Longrightarrow> b < length ss \<Longrightarrow> a \<noteq> b \<Longrightarrow> z < length ss \<Longrightarrow>
   size_f (attach ss a b ! z) = (if z = b then size_f (ss ! b) + size_f (ss ! a) else size_f (ss ! z))"
  by (auto simp: attach_def Let_def nth_list_update)

lemma attach_root_within:
  assumes a: "is_root ss a" and b: "is_root ss b" and ab: "a \<noteq> b"
  shows "root_within k ss y = Some s \<Longrightarrow>
         root_within (Suc k) (attach ss a b) y = Some (if s = a then b else s)"
proof (induction k arbitrary: y)
  case 0
  let ?ss = "attach ss a b"
  from 0 have y: "y < length ss" "id_f (ss ! y) = y" "s = y" by (auto split: if_splits)
  have al: "a < length ss" and bl: "b < length ss" using a b by (auto simp: is_root_def)
  have idb: "id_f (?ss ! b) = b" using attach_id[OF al bl ab bl] b ab by (simp add: is_root_def)
  show ?case
  proof (cases "y = a")
    case True
    have "id_f (?ss ! a) = b" using attach_id[OF al bl ab al] by simp
    then show ?thesis using True y al bl ab idb by (simp add: attach_length)
  next
    case False
    have "id_f (?ss ! y) = y" using attach_id[OF al bl ab y(1)] False y(2) by simp
    then show ?thesis using False y by (simp add: attach_length)
  qed
next
  case (Suc k)
  let ?ss = "attach ss a b"
  have al: "a < length ss" and bl: "b < length ss" using a b by (auto simp: is_root_def)
  have idb: "id_f (?ss ! b) = b" using attach_id[OF al bl ab bl] b ab by (simp add: is_root_def)
  have yl: "y < length ss" using Suc.prems by (rule root_within_less)
  have unf: "root_within (Suc (Suc k)) ?ss y =
      (if id_f (?ss ! y) = y then Some y else root_within (Suc k) ?ss (id_f (?ss ! y)))"
    using yl by (subst root_within.simps(2)) (simp add: attach_length)
  show ?case
  proof (cases "id_f (ss ! y) = y")
    case True
    with Suc.prems yl have sy: "s = y" by simp
    show ?thesis
    proof (cases "y = a")
      case True
      have "id_f (?ss ! a) = b" using attach_id[OF al bl ab al] by simp
      moreover have "root_within (Suc k) ?ss b = Some b"
        by (rule is_root_within) (simp add: is_root_def attach_length bl idb)
      ultimately show ?thesis using True sy ab unf by simp
    next
      case False
      have "id_f (?ss ! y) = y" using attach_id[OF al bl ab yl] False True by simp
      then show ?thesis using False sy unf by simp
    qed
  next
    case False
    then have ya: "y \<noteq> a" using a by (auto simp: is_root_def)
    from False Suc.prems yl have "root_within k ss (id_f (ss ! y)) = Some s" by simp
    from Suc.IH[OF this] have "root_within (Suc k) ?ss (id_f (ss ! y)) = Some (if s = a then b else s)" .
    moreover have "id_f (?ss ! y) = id_f (ss ! y)" using attach_id[OF al bl ab yl] ya by simp
    ultimately show ?thesis using False unf by simp
  qed
qed

lemma find_root_attach:
  assumes "is_root ss a" "is_root ss b" "a \<noteq> b" "find_root ss y = Some s"
  shows "find_root (attach ss a b) y = Some (if s = a then b else s)"
proof -
  from assms(4) obtain k where "root_within k ss y = Some s" by (auto simp: find_root_iff)
  from attach_root_within[OF assms(1-3) this] show ?thesis by (rule root_within_find_root)
qed

lemma chains_end_attach:
  assumes "is_root ss a" "is_root ss b" "a \<noteq> b" "chains_end ss"
  shows "chains_end (attach ss a b)"
  unfolding chains_end_def
proof
  fix y assume "y \<in> set [0..<length (attach ss a b)]"
  then have "y < length ss" by (simp add: attach_length)
  with assms(4) obtain s where "find_root ss y = Some s" by (auto dest: chains_endD)
  from find_root_attach[OF assms(1-3) this] show "find_root (attach ss a b) y \<noteq> None" by simp
qed

lemma distinct_roots: "distinct (roots ss)"
  by (simp add: roots_def)

lemma set_roots: "set (roots ss) = {x. is_root ss x}"
  by (auto simp: roots_def is_root_def)

lemma length_roots_card: "length (roots ss) = card {x. is_root ss x}"
  using distinct_card[OF distinct_roots, of ss] by (simp add: set_roots)

lemma is_root_attach:
  assumes "is_root ss a" "is_root ss b" "a \<noteq> b"
  shows "is_root (attach ss a b) z \<longleftrightarrow> is_root ss z \<and> z \<noteq> a"
proof (cases "z < length ss")
  case True
  have al: "a < length ss" and bl: "b < length ss" using assms by (auto simp: is_root_def)
  show ?thesis using attach_id[OF al bl assms(3) True] True assms
    by (auto simp: is_root_def attach_length)
next
  case False
  then show ?thesis by (simp add: is_root_def attach_length)
qed

lemma length_roots_attach:
  assumes "is_root ss a" "is_root ss b" "a \<noteq> b"
  shows "Suc (length (roots (attach ss a b))) = length (roots ss)"
proof -
  have eq: "{x. is_root (attach ss a b) x} = {x. is_root ss x} - {a}"
    using is_root_attach[OF assms] by auto
  have fin: "finite {x. is_root ss x}" using finite_set[of "roots ss"] by (simp add: set_roots)
  have mem: "a \<in> {x. is_root ss x}" using assms(1) by simp
  show ?thesis
    unfolding length_roots_card eq by (rule card_Suc_Diff1[OF fin mem])
qed

lemma length_filter_disj:
  "(\<And>x. x \<in> set xs \<Longrightarrow> \<not> (P x \<and> Q x)) \<Longrightarrow>
   length (filter (\<lambda>x. P x \<or> Q x) xs) = length (filter P xs) + length (filter Q xs)"
  by (induction xs) auto

lemma members_attach_parent:
  assumes "is_root ss a" "is_root ss b" "a \<noteq> b" "chains_end ss"
  shows "length (members (attach ss a b) b) = length (members ss a) + length (members ss b)"
proof -
  have "(find_root (attach ss a b) y = Some b) = (find_root ss y = Some a \<or> find_root ss y = Some b)"
    if "y \<in> set [0..<length ss]" for y
  proof -
    from that assms(4) obtain s where s: "find_root ss y = Some s" by (auto dest: chains_endD)
    from find_root_attach[OF assms(1-3) s] s assms(3) show ?thesis by auto
  qed
  then have "members (attach ss a b) b =
      filter (\<lambda>y. find_root ss y = Some a \<or> find_root ss y = Some b) [0..<length ss]"
    unfolding members_def attach_length by (rule filter_cong[OF refl])
  also have "length \<dots> = length (members ss a) + length (members ss b)"
    unfolding members_def using assms(3) by (intro length_filter_disj) auto
  finally show ?thesis .
qed

lemma members_attach_other:
  assumes "is_root ss a" "is_root ss b" "a \<noteq> b" "chains_end ss" "r \<noteq> a" "r \<noteq> b"
  shows "members (attach ss a b) r = members ss r"
proof -
  have "(find_root (attach ss a b) y = Some r) = (find_root ss y = Some r)"
    if "y \<in> set [0..<length ss]" for y
  proof -
    from that assms(4) obtain s where s: "find_root ss y = Some s" by (auto dest: chains_endD)
    from find_root_attach[OF assms(1-3) s] s assms(5,6) show ?thesis by auto
  qed
  then show ?thesis unfolding members_def attach_length by (rule filter_cong[OF refl])
qed

lemma sizes_ok_attach:
  assumes a: "is_root ss a" and b: "is_root ss b" and ab: "a \<noteq> b"
    and ce: "chains_end ss" and so: "sizes_ok ss"
  shows "sizes_ok (attach ss a b)"
  unfolding sizes_ok_def
proof
  fix r assume "r \<in> set (roots (attach ss a b))"
  then have r: "is_root ss r" "r \<noteq> a" using is_root_attach[OF a b ab] by (auto simp: set_roots)
  have al: "a < length ss" and bl: "b < length ss" and rl: "r < length ss"
    using a b r by (auto simp: is_root_def)
  have sz: "size_f (ss ! z) = length (members ss z)" if "is_root ss z" for z
    using so that by (simp add: sizes_ok_def set_roots)
  show "size_f (attach ss a b ! r) = length (members (attach ss a b) r)"
  proof (cases "r = b")
    case True
    then show ?thesis
      using attach_size[OF al bl ab bl] members_attach_parent[OF a b ab ce] sz[OF a] sz[OF b]
      by simp
  next
    case False
    then show ?thesis
      using attach_size[OF al bl ab rl] members_attach_other[OF a b ab ce r(2) False] sz[OF r(1)]
      by simp
  qed
qed

lemma uf_inv_attach:
  assumes inv: "uf_inv u" and a: "is_root (subsets u) a" and b: "is_root (subsets u) b"
    and ab: "a \<noteq> b"
  shows "uf_inv \<lparr>subsets = attach (subsets u) a b, nb_subsets = nb_subsets u - 1\<rparr>"
proof -
  from inv have ce: "chains_end (subsets u)" and nb: "nb_subsets u = length (roots (subsets u))"
    and so: "sizes_ok (subsets u)" by (simp_all add: uf_inv_def)
  show ?thesis
    using chains_end_attach[OF a b ab ce] sizes_ok_attach[OF a b ab ce so]
      length_roots_attach[OF a b ab] nb
    by (simp add: uf_inv_def)
qed

subsection \<open>\<open>merge\<close> and the invariant\<close>

lemma merge_uf_finds:
  assumes inv: "uf_inv u" and x: "x < length (subsets u)" and y: "y < length (subsets u)"
  shows "\<exists>i j u1 u2. find_uf u x = Some (i, u1) \<and> find_uf u1 y = Some (j, u2)
     \<and> find_root (subsets u) x = Some i \<and> find_root (subsets u) y = Some j
     \<and> uf_inv u2 \<and> length (subsets u2) = length (subsets u) \<and> nb_subsets u2 = nb_subsets u
     \<and> (\<forall>z. find_root (subsets u2) z = find_root (subsets u) z)
     \<and> map size_f (subsets u2) = map size_f (subsets u)
     \<and> merge_uf u x y = Some
          (if i = j then u2
           else if size_f (subsets u2 ! i) < size_f (subsets u2 ! j)
                then \<lparr>subsets = attach (subsets u2) i j, nb_subsets = nb_subsets u2 - 1\<rparr>
                else \<lparr>subsets = attach (subsets u2) j i, nb_subsets = nb_subsets u2 - 1\<rparr>)"
proof -
  have ce: "chains_end (subsets u)" using inv by (simp add: uf_inv_def)
  from find_uf_Some[OF ce x] obtain i ss1 where f1: "find_uf u x = Some (i, u\<lparr>subsets := ss1\<rparr>)"
    by blast
  let ?u1 = "u\<lparr>subsets := ss1\<rparr>"
  from find_uf_inv[OF inv x f1] have u1: "uf_inv ?u1" "length (subsets ?u1) = length (subsets u)"
    "nb_subsets ?u1 = nb_subsets u" "\<And>z. find_root (subsets ?u1) z = find_root (subsets u) z"
    "map size_f (subsets ?u1) = map size_f (subsets u)" "find_root (subsets u) x = Some i"
    by blast+
  have ce1: "chains_end (subsets ?u1)" using u1(1) by (simp add: uf_inv_def)
  have y1: "y < length (subsets ?u1)" using y u1(2) by simp
  from find_uf_Some[OF ce1 y1] obtain j ss2 where f2: "find_uf ?u1 y = Some (j, ?u1\<lparr>subsets := ss2\<rparr>)"
    by blast
  let ?u2 = "?u1\<lparr>subsets := ss2\<rparr>"
  from find_uf_inv[OF u1(1) y1 f2] have u2: "uf_inv ?u2" "length (subsets ?u2) = length (subsets ?u1)"
    "nb_subsets ?u2 = nb_subsets ?u1" "\<And>z. find_root (subsets ?u2) z = find_root (subsets ?u1) z"
    "map size_f (subsets ?u2) = map size_f (subsets ?u1)" "find_root (subsets ?u1) y = Some j"
    by blast+
  have m: "merge_uf u x y = Some
          (if i = j then ?u2
           else if size_f (subsets ?u2 ! i) < size_f (subsets ?u2 ! j)
                then \<lparr>subsets = attach (subsets ?u2) i j, nb_subsets = nb_subsets ?u2 - 1\<rparr>
                else \<lparr>subsets = attach (subsets ?u2) j i, nb_subsets = nb_subsets ?u2 - 1\<rparr>)"
    using f1 f2 by (simp add: merge_uf_def)
  have a: "find_root (subsets u) y = Some j" using u2(6) u1(4) by simp
  have b: "length (subsets ?u2) = length (subsets u)" using u2(2) u1(2) by simp
  have c: "nb_subsets ?u2 = nb_subsets u" using u2(3) u1(3) by simp
  have d: "\<forall>z. find_root (subsets ?u2) z = find_root (subsets u) z" using u2(4) u1(4) by simp
  have e: "map size_f (subsets ?u2) = map size_f (subsets u)" using u2(5) u1(5) by simp
  have "find_uf u x = Some (i, ?u1) \<and> find_uf ?u1 y = Some (j, ?u2)
     \<and> find_root (subsets u) x = Some i \<and> find_root (subsets u) y = Some j
     \<and> uf_inv ?u2 \<and> length (subsets ?u2) = length (subsets u) \<and> nb_subsets ?u2 = nb_subsets u
     \<and> (\<forall>z. find_root (subsets ?u2) z = find_root (subsets u) z)
     \<and> map size_f (subsets ?u2) = map size_f (subsets u)
     \<and> merge_uf u x y = Some
          (if i = j then ?u2
           else if size_f (subsets ?u2 ! i) < size_f (subsets ?u2 ! j)
                then \<lparr>subsets = attach (subsets ?u2) i j, nb_subsets = nb_subsets ?u2 - 1\<rparr>
                else \<lparr>subsets = attach (subsets ?u2) j i, nb_subsets = nb_subsets ?u2 - 1\<rparr>)"
    by (intro conjI) (rule f1 f2 u1(6) a u2(1) b c d e m)+
  then show ?thesis by (intro exI)
qed

lemma merge_uf_Some:
  assumes inv: "uf_inv u" and x: "x < length (subsets u)" and y: "y < length (subsets u)"
  shows "\<exists>i j u2. find_root (subsets u) x = Some i \<and> find_root (subsets u) y = Some j
     \<and> uf_inv u2 \<and> length (subsets u2) = length (subsets u) \<and> nb_subsets u2 = nb_subsets u
     \<and> (\<forall>z. find_root (subsets u2) z = find_root (subsets u) z)
     \<and> map size_f (subsets u2) = map size_f (subsets u)
     \<and> merge_uf u x y = Some
          (if i = j then u2
           else if size_f (subsets u2 ! i) < size_f (subsets u2 ! j)
                then \<lparr>subsets = attach (subsets u2) i j, nb_subsets = nb_subsets u2 - 1\<rparr>
                else \<lparr>subsets = attach (subsets u2) j i, nb_subsets = nb_subsets u2 - 1\<rparr>)"
proof -
  from merge_uf_finds[OF inv x y] obtain i j u1 u2 where
    "find_root (subsets u) x = Some i \<and> find_root (subsets u) y = Some j
     \<and> uf_inv u2 \<and> length (subsets u2) = length (subsets u) \<and> nb_subsets u2 = nb_subsets u
     \<and> (\<forall>z. find_root (subsets u2) z = find_root (subsets u) z)
     \<and> map size_f (subsets u2) = map size_f (subsets u)
     \<and> merge_uf u x y = Some
          (if i = j then u2
           else if size_f (subsets u2 ! i) < size_f (subsets u2 ! j)
                then \<lparr>subsets = attach (subsets u2) i j, nb_subsets = nb_subsets u2 - 1\<rparr>
                else \<lparr>subsets = attach (subsets u2) j i, nb_subsets = nb_subsets u2 - 1\<rparr>)"
    by blast
  then show ?thesis by (intro exI)
qed

lemma nth_map_size:
  "map size_f ss' = map size_f ss \<Longrightarrow> z < length ss \<Longrightarrow> size_f (ss' ! z) = size_f (ss ! z)"
  using nth_map[of z ss' size_f] nth_map[of z ss size_f] length_map[of size_f ss'] length_map[of size_f ss]
  by simp

lemma uf_inv_init: "uf_inv (UnionFind_init n)"
proof -
  let ?ss = "map (\<lambda>i. \<lparr>id_f = i, size_f = 1\<rparr>) [0..<n]"
  have r: "is_root ?ss x" if "x < n" for x using that by (simp add: is_root_def)
  have fr: "find_root ?ss x = Some x" if "x < n" for x using r[OF that] by (rule is_root_find_root)
  have ce: "chains_end ?ss" using fr by (simp add: chains_end_def)
  have "filter (is_root ?ss) [0..<n] = [0..<n]" using r by (simp add: filter_id_conv)
  then have ro: "roots ?ss = [0..<n]" by (simp add: roots_def)
  have "length (members ?ss x) = 1" if "x < n" for x
  proof -
    have "members ?ss x = filter (\<lambda>y. y = x) [0..<n]"
      unfolding members_def using fr by (auto intro: filter_cong)
    also have "length \<dots> = card ({y. y = x} \<inter> set [0..<n])"
      by (rule distinct_length_filter) simp
    also have "{y. y = x} \<inter> set [0..<n] = {x}" using that by auto
    finally show ?thesis by simp
  qed
  note len1 = this
  have so: "sizes_ok ?ss"
    unfolding sizes_ok_def ro
  proof
    fix r assume "r \<in> set [0..<n]"
    then have "r < n" by simp
    then show "size_f (?ss ! r) = length (members ?ss r)" using len1[of r] by simp
  qed
  have "nb_subsets (UnionFind_init n) = length (roots ?ss)" unfolding ro by (simp add: UnionFind_init_def)
  moreover have "subsets (UnionFind_init n) = ?ss" by (simp add: UnionFind_init_def)
  ultimately show ?thesis using ce so unfolding uf_inv_def by simp
qed

lemma merge_uf_inv:
  assumes inv: "uf_inv u" and x: "x < length (subsets u)" and y: "y < length (subsets u)"
    and m: "merge_uf u x y = Some u'"
  shows "uf_inv u' \<and> length (subsets u') = length (subsets u)"
proof -
  from merge_uf_Some[OF inv x y] obtain i j u2 where
    i: "find_root (subsets u) x = Some i" and j: "find_root (subsets u) y = Some j"
    and u2: "uf_inv u2" "length (subsets u2) = length (subsets u)"
      "\<forall>z. find_root (subsets u2) z = find_root (subsets u) z"
    and mm: "merge_uf u x y = Some
          (if i = j then u2
           else if size_f (subsets u2 ! i) < size_f (subsets u2 ! j)
                then \<lparr>subsets = attach (subsets u2) i j, nb_subsets = nb_subsets u2 - 1\<rparr>
                else \<lparr>subsets = attach (subsets u2) j i, nb_subsets = nb_subsets u2 - 1\<rparr>)"
    by blast
  have ri: "is_root (subsets u2) i" using i u2(3) by (simp add: is_root_iff) (metis find_root_is_root is_root_iff)
  have rj: "is_root (subsets u2) j" using j u2(3) by (simp add: is_root_iff) (metis find_root_is_root is_root_iff)
  show ?thesis
  proof (cases "i = j")
    case True
    with m mm u2 show ?thesis by simp
  next
    case False
    then have ji: "j \<noteq> i" by simp
    show ?thesis
      using m mm False u2(2) uf_inv_attach[OF u2(1) ri rj False] uf_inv_attach[OF u2(1) rj ri ji]
      by (auto simp: attach_length split: if_splits)
  qed
qed

lemma reachable_inv: "reachable n u \<Longrightarrow> uf_inv u \<and> length (subsets u) = n"
proof (induction rule: reachable.induct)
  case r_init
  show ?case by (simp add: uf_inv_init) (simp add: UnionFind_init_def)
next
  case (r_find u x r u')
  then show ?case using find_uf_inv[of u x r u'] by simp
next
  case (r_merge u x y u')
  then show ?case using merge_uf_inv[of u x y u'] by simp
qed

section \<open>The claims about the union-find structure\<close>

lemmas uf_eval = merge_uf_def find_uf_def find_root.simps compress.simps UnionFind_init_def
  attach_def upt_rec

text \<open>
  Claim C7. In every state reachable from the \<open>n\<close> singletons by finds and merges, and for
  every element \<open>x < n\<close>, \<open>find(x)\<close> returns: its result \<open>r\<close> is the root of the tree
  of \<open>x\<close> (an ancestor of \<open>x\<close> with \<open>id == r\<close>, and the only such one); a second find,
  of \<open>r\<close>, returns \<open>r\<close> again and changes nothing; afterwards every node on the walk from
  \<open>x\<close> points directly to \<open>r\<close>, every other node is unchanged, and the representative
  of every element, the sizes and \<open>nb_subsets\<close> are what they were.
\<close>

theorem find_uf_correct:
  assumes "reachable n u" and "x < n"
  shows "\<exists>r u'. find_uf u x = Some (r, u')
     \<and> is_root (subsets u) r \<and> (\<exists>k. ancestor (subsets u) k x = r)
     \<and> (\<forall>r' k. is_root (subsets u) r' \<and> ancestor (subsets u) k x = r' \<longrightarrow> r' = r)
     \<and> find_uf u' r = Some (r, u')
     \<and> (\<forall>k. id_f (subsets u' ! ancestor (subsets u) k x) = r)
     \<and> (\<forall>y. (\<forall>k. ancestor (subsets u) k x \<noteq> y) \<longrightarrow> subsets u' ! y = subsets u ! y)
     \<and> (\<forall>y. find_root (subsets u') y = find_root (subsets u) y)
     \<and> nb_subsets u' = nb_subsets u
     \<and> map size_f (subsets u') = map size_f (subsets u)
     \<and> reachable n u'"
proof -
  from reachable_inv[OF assms(1)] have inv: "uf_inv u" and len: "length (subsets u) = n" by simp_all
  have ce: "chains_end (subsets u)" using inv by (simp add: uf_inv_def)
  have x: "x < length (subsets u)" using assms(2) len by simp
  from find_uf_Some[OF ce x] obtain r ss' where
    f: "find_uf u x = Some (r, u\<lparr>subsets := ss'\<rparr>)" and r: "find_root (subsets u) x = Some r"
    and c: "compress (subsets u) x r = Some ss'" and l: "length ss' = length (subsets u)"
    and sz: "map size_f ss' = map size_f (subsets u)"
    and fr: "\<forall>y. find_root ss' y = find_root (subsets u) y" by blast
  let ?u' = "u\<lparr>subsets := ss'\<rparr>"
  from r obtain k where k: "root_within k (subsets u) x = Some r" by (auto simp: find_root_iff)
  have rr: "is_root (subsets u) r" using r by (rule find_root_is_root)
  have anc: "\<exists>k. ancestor (subsets u) k x = r" using k by (rule root_within_ancestor_ex)
  have uniq: "\<forall>r' k. is_root (subsets u) r' \<and> ancestor (subsets u) k x = r' \<longrightarrow> r' = r"
    using ancestor_root_unique[OF r] by blast
  have rr': "is_root ss' r" using rr fr by (simp add: is_root_iff)
  then have "compress ss' r r = Some ss'" by (subst compress.simps) (simp add: is_root_def)
  moreover have "find_root ss' r = Some r" using rr' by (rule is_root_find_root)
  ultimately have idem: "find_uf ?u' r = Some (r, ?u')" by (simp add: find_uf_def)
  have vis: "\<forall>j. id_f (ss' ! ancestor (subsets u) j x) = r"
    using compress_visited[OF k c] by blast
  have frame: "\<forall>y. (\<forall>j. ancestor (subsets u) j x \<noteq> y) \<longrightarrow> ss' ! y = subsets u ! y"
    using compress_frame[OF k c] by blast
  have re: "reachable n ?u'" using assms f by (rule r_find)
  have "find_uf u x = Some (r, ?u')
     \<and> is_root (subsets u) r \<and> (\<exists>k. ancestor (subsets u) k x = r)
     \<and> (\<forall>r' k. is_root (subsets u) r' \<and> ancestor (subsets u) k x = r' \<longrightarrow> r' = r)
     \<and> find_uf ?u' r = Some (r, ?u')
     \<and> (\<forall>k. id_f (subsets ?u' ! ancestor (subsets u) k x) = r)
     \<and> (\<forall>y. (\<forall>k. ancestor (subsets u) k x \<noteq> y) \<longrightarrow> subsets ?u' ! y = subsets u ! y)
     \<and> (\<forall>y. find_root (subsets ?u') y = find_root (subsets u) y)
     \<and> nb_subsets ?u' = nb_subsets u
     \<and> map size_f (subsets ?u') = map size_f (subsets u)
     \<and> reachable n ?u'"
  proof (intro conjI)
    show "\<forall>k. id_f (subsets ?u' ! ancestor (subsets u) k x) = r" using vis by simp
    show "\<forall>y. (\<forall>k. ancestor (subsets u) k x \<noteq> y) \<longrightarrow> subsets ?u' ! y = subsets u ! y"
      using frame by simp
    show "\<forall>y. find_root (subsets ?u') y = find_root (subsets u) y" using fr by simp
    show "map size_f (subsets ?u') = map size_f (subsets u)" using sz by simp
    show "nb_subsets ?u' = nb_subsets u" by simp
  qed (rule f rr anc uniq idem re)+
  then show ?thesis by (intro exI)
qed

definition deep4 :: UnionFind where
  "deep4 = \<lparr>subsets = [\<lparr>id_f = 0, size_f = 4\<rparr>, \<lparr>id_f = 0, size_f = 1\<rparr>,
                       \<lparr>id_f = 0, size_f = 2\<rparr>, \<lparr>id_f = 2, size_f = 1\<rparr>], nb_subsets = 1\<rparr>"

lemma reachable_deep4: "reachable 4 deep4"
proof -
  have 0: "reachable 4 (UnionFind_init 4)" by (rule r_init)
  have "merge_uf (UnionFind_init 4) 0 1 = Some \<lparr>subsets = [\<lparr>id_f = 0, size_f = 2\<rparr>, \<lparr>id_f = 0, size_f = 1\<rparr>,
                       \<lparr>id_f = 2, size_f = 1\<rparr>, \<lparr>id_f = 3, size_f = 1\<rparr>], nb_subsets = 3\<rparr>"
    by (simp add: uf_eval)
  from r_merge[OF 0 _ _ this] have 1: "reachable 4 \<lparr>subsets = [\<lparr>id_f = 0, size_f = 2\<rparr>, \<lparr>id_f = 0, size_f = 1\<rparr>,
                       \<lparr>id_f = 2, size_f = 1\<rparr>, \<lparr>id_f = 3, size_f = 1\<rparr>], nb_subsets = 3\<rparr>" by simp
  have "merge_uf \<lparr>subsets = [\<lparr>id_f = 0, size_f = 2\<rparr>, \<lparr>id_f = 0, size_f = 1\<rparr>,
                       \<lparr>id_f = 2, size_f = 1\<rparr>, \<lparr>id_f = 3, size_f = 1\<rparr>], nb_subsets = 3\<rparr> 2 3
      = Some \<lparr>subsets = [\<lparr>id_f = 0, size_f = 2\<rparr>, \<lparr>id_f = 0, size_f = 1\<rparr>,
                       \<lparr>id_f = 2, size_f = 2\<rparr>, \<lparr>id_f = 2, size_f = 1\<rparr>], nb_subsets = 2\<rparr>"
    by (simp add: uf_eval)
  from r_merge[OF 1 _ _ this] have 2: "reachable 4 \<lparr>subsets = [\<lparr>id_f = 0, size_f = 2\<rparr>, \<lparr>id_f = 0, size_f = 1\<rparr>,
                       \<lparr>id_f = 2, size_f = 2\<rparr>, \<lparr>id_f = 2, size_f = 1\<rparr>], nb_subsets = 2\<rparr>" by simp
  have "merge_uf \<lparr>subsets = [\<lparr>id_f = 0, size_f = 2\<rparr>, \<lparr>id_f = 0, size_f = 1\<rparr>,
                       \<lparr>id_f = 2, size_f = 2\<rparr>, \<lparr>id_f = 2, size_f = 1\<rparr>], nb_subsets = 2\<rparr> 0 2
      = Some deep4"
    by (simp add: uf_eval deep4_def)
  from r_merge[OF 2 _ _ this] show ?thesis by simp
qed

theorem find_uf_correct_witness:
  "reachable 4 deep4 \<and> (3::nat) < 4 \<and>
   find_uf deep4 3 = Some (0, deep4\<lparr>subsets := (subsets deep4)[3 := \<lparr>id_f = 0, size_f = 1\<rparr>]\<rparr>) \<and>
   (\<exists>r u'. find_uf deep4 3 = Some (r, u')
     \<and> is_root (subsets deep4) r \<and> (\<exists>k. ancestor (subsets deep4) k 3 = r)
     \<and> (\<forall>r' k. is_root (subsets deep4) r' \<and> ancestor (subsets deep4) k 3 = r' \<longrightarrow> r' = r)
     \<and> find_uf u' r = Some (r, u')
     \<and> (\<forall>k. id_f (subsets u' ! ancestor (subsets deep4) k 3) = r)
     \<and> (\<forall>y. (\<forall>k. ancestor (subsets deep4) k 3 \<noteq> y) \<longrightarrow> subsets u' ! y = subsets deep4 ! y)
     \<and> (\<forall>y. find_root (subsets u') y = find_root (subsets deep4) y)
     \<and> nb_subsets u' = nb_subsets deep4
     \<and> map size_f (subsets u') = map size_f (subsets deep4)
     \<and> reachable 4 u')"
  (is "_ \<and> _ \<and> ?E \<and> ?C")
proof (intro conjI)
  have lt: "(3::nat) < 4" by simp
  show "reachable 4 deep4" by (rule reachable_deep4)
  show "(3::nat) < 4" by (rule lt)
  show ?E by (simp add: uf_eval deep4_def)
  show ?C by (rule find_uf_correct[OF reachable_deep4 lt])
qed

definition joined :: "UnionFind \<Rightarrow> UnionFind \<Rightarrow> nat \<Rightarrow> nat \<Rightarrow> bool" where
  "joined u u' c p =
     (id_f (subsets u' ! c) = p \<and> is_root (subsets u') p
      \<and> size_f (subsets u' ! p) = size_f (subsets u ! p) + size_f (subsets u ! c)
      \<and> size_f (subsets u ! c) = length (members (subsets u) c)
      \<and> size_f (subsets u ! p) = length (members (subsets u) p)
      \<and> length (members (subsets u') p) = length (members (subsets u) p) + length (members (subsets u) c)
      \<and> Suc (nb_subsets u') = nb_subsets u
      \<and> (\<forall>z s. find_root (subsets u) z = Some s \<longrightarrow>
             find_root (subsets u') z = Some (if s = c then p else s)))"

lemma attach_joined:
  assumes inv: "uf_inv u" and len: "length (subsets u2) = length (subsets u)"
    and nb: "nb_subsets u2 = nb_subsets u"
    and fr: "\<forall>z. find_root (subsets u2) z = find_root (subsets u) z"
    and sz: "map size_f (subsets u2) = map size_f (subsets u)"
    and c: "is_root (subsets u) c" and p: "is_root (subsets u) p" and cp: "c \<noteq> p"
  shows "joined u \<lparr>subsets = attach (subsets u2) c p, nb_subsets = nb_subsets u2 - 1\<rparr> c p"
proof -
  let ?ss = "subsets u" and ?s2 = "subsets u2"
  let ?u' = "\<lparr>subsets = attach ?s2 c p, nb_subsets = nb_subsets u2 - 1\<rparr>"
  have ce: "chains_end ?ss" and so: "sizes_ok ?ss" and nbr: "nb_subsets u = length (roots ?ss)"
    using inv by (simp_all add: uf_inv_def)
  have fr': "\<And>y. find_root ?s2 y = find_root ?ss y" using fr by simp
  have ce2: "chains_end ?s2" using ce chains_end_cong[OF len fr'] by simp
  have c2: "is_root ?s2 c" and p2: "is_root ?s2 p" using c p fr by (simp_all add: is_root_iff)
  have cl: "c < length ?s2" and pl: "p < length ?s2" using c2 p2 by (simp_all add: is_root_def)
  have szc: "size_f (?s2 ! c) = size_f (?ss ! c)" and szp: "size_f (?s2 ! p) = size_f (?ss ! p)"
    using nth_map_size[OF sz] cl pl len by simp_all
  have mc: "size_f (?ss ! c) = length (members ?ss c)" and mp: "size_f (?ss ! p) = length (members ?ss p)"
    using so c p by (simp_all add: sizes_ok_def set_roots)
  have 1: "id_f (subsets ?u' ! c) = p" using attach_id[OF cl pl cp cl] by simp
  have 2: "is_root (subsets ?u') p" using is_root_attach[OF c2 p2 cp, of p] p2 cp by simp
  have 3: "size_f (subsets ?u' ! p) = size_f (?ss ! p) + size_f (?ss ! c)"
    using attach_size[OF cl pl cp pl] szc szp by simp
  have 4: "length (members (subsets ?u') p) = length (members ?ss p) + length (members ?ss c)"
    using members_attach_parent[OF c2 p2 cp ce2] members_cong[OF len fr'] by simp
  have "Suc (length (roots (attach ?s2 c p))) = length (roots ?ss)"
    using length_roots_attach[OF c2 p2 cp] roots_cong[OF len fr'] by simp
  then have 5: "Suc (nb_subsets ?u') = nb_subsets u" using nb nbr by simp
  have 6: "\<forall>z s. find_root ?ss z = Some s \<longrightarrow> find_root (subsets ?u') z = Some (if s = c then p else s)"
    using find_root_attach[OF c2 p2 cp] fr by simp
  show ?thesis unfolding joined_def using 1 2 3 mc mp 4 5 6 by (intro conjI)
qed

text \<open>
  \<open>attached u2 u' c p\<close>: the state \<open>u'\<close> is the state \<open>u2\<close> but for the \<open>id\<close> of \<open>c\<close>, now \<open>p\<close>,
  the \<open>size\<close> of \<open>p\<close>, now the sum of the two sizes, and \<open>nb_subsets\<close>, one less.
\<close>

definition attached :: "UnionFind \<Rightarrow> UnionFind \<Rightarrow> nat \<Rightarrow> nat \<Rightarrow> bool" where
  "attached u2 u' c p =
     (length (subsets u') = length (subsets u2)
      \<and> (\<forall>z < length (subsets u2).
            id_f (subsets u' ! z) = (if z = c then p else id_f (subsets u2 ! z)))
      \<and> (\<forall>z < length (subsets u2).
            size_f (subsets u' ! z)
              = (if z = p then size_f (subsets u2 ! p) + size_f (subsets u2 ! c)
                 else size_f (subsets u2 ! z)))
      \<and> Suc (nb_subsets u') = nb_subsets u2)"

lemma attach_attached:
  assumes "c < length (subsets u2)" "p < length (subsets u2)" "c \<noteq> p" "0 < nb_subsets u2"
  shows "attached u2 \<lparr>subsets = attach (subsets u2) c p, nb_subsets = nb_subsets u2 - 1\<rparr> c p"
  unfolding attached_def
proof (intro conjI allI impI)
  show "length (subsets \<lparr>subsets = attach (subsets u2) c p, nb_subsets = nb_subsets u2 - 1\<rparr>)
      = length (subsets u2)" by (simp add: attach_length)
  show "Suc (nb_subsets \<lparr>subsets = attach (subsets u2) c p, nb_subsets = nb_subsets u2 - 1\<rparr>)
      = nb_subsets u2" using assms(4) by simp
next
  fix z assume z: "z < length (subsets u2)"
  show "id_f (subsets \<lparr>subsets = attach (subsets u2) c p, nb_subsets = nb_subsets u2 - 1\<rparr> ! z)
      = (if z = c then p else id_f (subsets u2 ! z))"
    using attach_id[OF assms(1,2,3) z] by simp
next
  fix z assume z: "z < length (subsets u2)"
  show "size_f (subsets \<lparr>subsets = attach (subsets u2) c p, nb_subsets = nb_subsets u2 - 1\<rparr> ! z)
      = (if z = p then size_f (subsets u2 ! p) + size_f (subsets u2 ! c)
         else size_f (subsets u2 ! z))"
    using attach_size[OF assms(1,2,3) z] by simp
qed

lemma merge_uf_frame:
  assumes inv: "uf_inv u" and x: "x < length (subsets u)" and y: "y < length (subsets u)"
  shows "\<exists>i j u1 u2 u'. find_uf u x = Some (i, u1) \<and> find_uf u1 y = Some (j, u2)
     \<and> find_root (subsets u) x = Some i \<and> find_root (subsets u) y = Some j
     \<and> merge_uf u x y = Some u' \<and> uf_inv u' \<and> length (subsets u') = length (subsets u)
     \<and> (i = j \<longrightarrow> u' = u2 \<and> nb_subsets u' = nb_subsets u
                  \<and> (\<forall>z. find_root (subsets u') z = find_root (subsets u) z)
                  \<and> map size_f (subsets u') = map size_f (subsets u))
     \<and> (i \<noteq> j \<and> size_f (subsets u ! i) < size_f (subsets u ! j)
          \<longrightarrow> joined u u' i j \<and> attached u2 u' i j)
     \<and> (i \<noteq> j \<and> \<not> size_f (subsets u ! i) < size_f (subsets u ! j)
          \<longrightarrow> joined u u' j i \<and> attached u2 u' j i)"
proof -
  from merge_uf_finds[OF inv x y] obtain i j u1 u2 where
    f1: "find_uf u x = Some (i, u1)" and f2: "find_uf u1 y = Some (j, u2)"
    and i: "find_root (subsets u) x = Some i" and j: "find_root (subsets u) y = Some j"
    and u2: "uf_inv u2" "length (subsets u2) = length (subsets u)" "nb_subsets u2 = nb_subsets u"
      "\<forall>z. find_root (subsets u2) z = find_root (subsets u) z"
      "map size_f (subsets u2) = map size_f (subsets u)"
    and mm: "merge_uf u x y = Some
          (if i = j then u2
           else if size_f (subsets u2 ! i) < size_f (subsets u2 ! j)
                then \<lparr>subsets = attach (subsets u2) i j, nb_subsets = nb_subsets u2 - 1\<rparr>
                else \<lparr>subsets = attach (subsets u2) j i, nb_subsets = nb_subsets u2 - 1\<rparr>)"
    by blast
  let ?u' = "if i = j then u2
           else if size_f (subsets u2 ! i) < size_f (subsets u2 ! j)
                then \<lparr>subsets = attach (subsets u2) i j, nb_subsets = nb_subsets u2 - 1\<rparr>
                else \<lparr>subsets = attach (subsets u2) j i, nb_subsets = nb_subsets u2 - 1\<rparr>"
  have ri: "is_root (subsets u) i" using i by (rule find_root_is_root)
  have rj: "is_root (subsets u) j" using j by (rule find_root_is_root)
  have il: "i < length (subsets u)" and jl: "j < length (subsets u)"
    using ri rj by (simp_all add: is_root_def)
  have il2: "i < length (subsets u2)" and jl2: "j < length (subsets u2)"
    using il jl u2(2) by simp_all
  have szi: "size_f (subsets u2 ! i) = size_f (subsets u ! i)"
    and szj: "size_f (subsets u2 ! j) = size_f (subsets u ! j)"
    using nth_map_size[OF u2(5)] il jl by simp_all
  have nbpos: "0 < nb_subsets u2"
  proof -
    have "i \<in> set (roots (subsets u))" using ri by (simp add: set_roots)
    then have "roots (subsets u) \<noteq> []" by auto
    then show ?thesis using inv u2(3) by (simp add: uf_inv_def)
  qed
  from merge_uf_inv[OF inv x y mm] have inv': "uf_inv ?u'" and len': "length (subsets ?u') = length (subsets u)"
    by simp_all
  have same: "i = j \<longrightarrow> ?u' = u2 \<and> nb_subsets ?u' = nb_subsets u
                  \<and> (\<forall>z. find_root (subsets ?u') z = find_root (subsets u) z)
                  \<and> map size_f (subsets ?u') = map size_f (subsets u)"
    using u2 by simp
  have lt: "i \<noteq> j \<and> size_f (subsets u ! i) < size_f (subsets u ! j)
       \<longrightarrow> joined u ?u' i j \<and> attached u2 ?u' i j"
  proof
    assume a: "i \<noteq> j \<and> size_f (subsets u ! i) < size_f (subsets u ! j)"
    then have e: "?u' = \<lparr>subsets = attach (subsets u2) i j, nb_subsets = nb_subsets u2 - 1\<rparr>"
      using szi szj by simp
    have "joined u \<lparr>subsets = attach (subsets u2) i j, nb_subsets = nb_subsets u2 - 1\<rparr> i j"
      using attach_joined[OF inv u2(2,3,4,5) ri rj] a by simp
    moreover have "attached u2 \<lparr>subsets = attach (subsets u2) i j, nb_subsets = nb_subsets u2 - 1\<rparr> i j"
      using il2 jl2 _ nbpos by (rule attach_attached) (use a in simp)
    ultimately show "joined u ?u' i j \<and> attached u2 ?u' i j" unfolding e by (rule conjI)
  qed
  have ge: "i \<noteq> j \<and> \<not> size_f (subsets u ! i) < size_f (subsets u ! j)
       \<longrightarrow> joined u ?u' j i \<and> attached u2 ?u' j i"
  proof
    assume a: "i \<noteq> j \<and> \<not> size_f (subsets u ! i) < size_f (subsets u ! j)"
    then have e: "?u' = \<lparr>subsets = attach (subsets u2) j i, nb_subsets = nb_subsets u2 - 1\<rparr>"
      using szi szj by simp
    have ji: "j \<noteq> i" using a by simp
    have "joined u \<lparr>subsets = attach (subsets u2) j i, nb_subsets = nb_subsets u2 - 1\<rparr> j i"
      using attach_joined[OF inv u2(2,3,4,5) rj ri ji] .
    moreover have "attached u2 \<lparr>subsets = attach (subsets u2) j i, nb_subsets = nb_subsets u2 - 1\<rparr> j i"
      using jl2 il2 ji nbpos by (rule attach_attached)
    ultimately show "joined u ?u' j i \<and> attached u2 ?u' j i" unfolding e by (rule conjI)
  qed
  have "find_uf u x = Some (i, u1) \<and> find_uf u1 y = Some (j, u2)
     \<and> find_root (subsets u) x = Some i \<and> find_root (subsets u) y = Some j
     \<and> merge_uf u x y = Some ?u' \<and> uf_inv ?u' \<and> length (subsets ?u') = length (subsets u)
     \<and> (i = j \<longrightarrow> ?u' = u2 \<and> nb_subsets ?u' = nb_subsets u
                  \<and> (\<forall>z. find_root (subsets ?u') z = find_root (subsets u) z)
                  \<and> map size_f (subsets ?u') = map size_f (subsets u))
     \<and> (i \<noteq> j \<and> size_f (subsets u ! i) < size_f (subsets u ! j)
          \<longrightarrow> joined u ?u' i j \<and> attached u2 ?u' i j)
     \<and> (i \<noteq> j \<and> \<not> size_f (subsets u ! i) < size_f (subsets u ! j)
          \<longrightarrow> joined u ?u' j i \<and> attached u2 ?u' j i)"
    by (intro conjI) (rule f1 f2 i j mm inv' len' same lt ge)+
  then show ?thesis by (intro exI)
qed

lemma merge_uf_cases:
  assumes inv: "uf_inv u" and x: "x < length (subsets u)" and y: "y < length (subsets u)"
  shows "\<exists>i j u'. find_root (subsets u) x = Some i \<and> find_root (subsets u) y = Some j
     \<and> merge_uf u x y = Some u' \<and> uf_inv u' \<and> length (subsets u') = length (subsets u)
     \<and> (i = j \<longrightarrow> nb_subsets u' = nb_subsets u
                  \<and> (\<forall>z. find_root (subsets u') z = find_root (subsets u) z)
                  \<and> map size_f (subsets u') = map size_f (subsets u))
     \<and> (i \<noteq> j \<and> size_f (subsets u ! i) < size_f (subsets u ! j) \<longrightarrow> joined u u' i j)
     \<and> (i \<noteq> j \<and> \<not> size_f (subsets u ! i) < size_f (subsets u ! j) \<longrightarrow> joined u u' j i)"
proof -
  from merge_uf_frame[OF inv x y] obtain i j u1 u2 u' where
    a: "find_root (subsets u) x = Some i" "find_root (subsets u) y = Some j"
      "merge_uf u x y = Some u'" "uf_inv u'" "length (subsets u') = length (subsets u)"
    and same: "i = j \<longrightarrow> u' = u2 \<and> nb_subsets u' = nb_subsets u
                  \<and> (\<forall>z. find_root (subsets u') z = find_root (subsets u) z)
                  \<and> map size_f (subsets u') = map size_f (subsets u)"
    and lt: "i \<noteq> j \<and> size_f (subsets u ! i) < size_f (subsets u ! j)
          \<longrightarrow> joined u u' i j \<and> attached u2 u' i j"
    and ge: "i \<noteq> j \<and> \<not> size_f (subsets u ! i) < size_f (subsets u ! j)
          \<longrightarrow> joined u u' j i \<and> attached u2 u' j i"
    by blast
  have s: "i = j \<longrightarrow> nb_subsets u' = nb_subsets u
                  \<and> (\<forall>z. find_root (subsets u') z = find_root (subsets u) z)
                  \<and> map size_f (subsets u') = map size_f (subsets u)" using same by blast
  have l: "i \<noteq> j \<and> size_f (subsets u ! i) < size_f (subsets u ! j) \<longrightarrow> joined u u' i j"
    using lt by simp
  have g: "i \<noteq> j \<and> \<not> size_f (subsets u ! i) < size_f (subsets u ! j) \<longrightarrow> joined u u' j i"
    using ge by simp
  have "find_root (subsets u) x = Some i \<and> find_root (subsets u) y = Some j
     \<and> merge_uf u x y = Some u' \<and> uf_inv u' \<and> length (subsets u') = length (subsets u)
     \<and> (i = j \<longrightarrow> nb_subsets u' = nb_subsets u
                  \<and> (\<forall>z. find_root (subsets u') z = find_root (subsets u) z)
                  \<and> map size_f (subsets u') = map size_f (subsets u))
     \<and> (i \<noteq> j \<and> size_f (subsets u ! i) < size_f (subsets u ! j) \<longrightarrow> joined u u' i j)
     \<and> (i \<noteq> j \<and> \<not> size_f (subsets u ! i) < size_f (subsets u ! j) \<longrightarrow> joined u u' j i)"
    by (intro conjI) (rule a s l g)+
  then show ?thesis by (intro exI)
qed

text \<open>
  Claim C6, as amended. In a well-formed state, \<open>merge(x, y)\<close> returns; let \<open>i\<close> and \<open>j\<close> be
  the roots of \<open>x\<close> and \<open>y\<close>, and \<open>u2\<close> the state after the two calls \<open>find(x)\<close> and \<open>find(y)\<close>
  it starts with (what a \<open>find\<close> does to a state is the matter of claim C7). When \<open>i = j\<close>,
  the state after the merge is \<open>u2\<close>, no more: the representative of every element, every
  size and \<open>nb_subsets\<close> are what they were before the call (the two finds may have
  re-pointed nodes to their root). Otherwise, when the subset of \<open>i\<close> is strictly smaller
  \<open>i\<close> becomes a child of \<open>j\<close>, else (also on a tie) \<open>j\<close> becomes a child of \<open>i\<close>; the
  surviving root's size is the sum of the two subset sizes (the numbers of their
  elements), \<open>nb_subsets\<close> decreases by exactly one, the elements of the attached subset
  get the surviving root as their representative while all others keep theirs
  (\<open>joined\<close>), and nothing else of \<open>u2\<close> is changed: every other \<open>id\<close> and every other
  \<open>size\<close> is that of \<open>u2\<close> (\<open>attached\<close>).
\<close>

theorem merge_uf_correct:
  assumes inv: "uf_inv u" and x: "x < length (subsets u)" and y: "y < length (subsets u)"
  shows "\<exists>i j u1 u2 u'. find_uf u x = Some (i, u1) \<and> find_uf u1 y = Some (j, u2)
     \<and> find_root (subsets u) x = Some i \<and> find_root (subsets u) y = Some j
     \<and> merge_uf u x y = Some u' \<and> uf_inv u' \<and> length (subsets u') = length (subsets u)
     \<and> (i = j \<longrightarrow> u' = u2 \<and> nb_subsets u' = nb_subsets u
                  \<and> (\<forall>z. find_root (subsets u') z = find_root (subsets u) z)
                  \<and> map size_f (subsets u') = map size_f (subsets u))
     \<and> (i \<noteq> j \<and> size_f (subsets u ! i) < size_f (subsets u ! j)
          \<longrightarrow> joined u u' i j \<and> attached u2 u' i j)
     \<and> (i \<noteq> j \<and> \<not> size_f (subsets u ! i) < size_f (subsets u ! j)
          \<longrightarrow> joined u u' j i \<and> attached u2 u' j i)"
  using inv x y by (rule merge_uf_frame)

text \<open>
  The claim as stated (a merge of two elements of one subset is a no-op) fails on the
  state: in the reachable state \<open>deep4\<close>, where \<open>3 \<rightarrow> 2 \<rightarrow> 0\<close>, \<open>merge(3, 0)\<close> finds both
  elements in the subset of \<open>0\<close>, and leaves node \<open>3\<close> re-pointed to \<open>0\<close>.
\<close>

theorem merge_uf_noop_counterexample:
  "reachable 4 deep4
   \<and> find_root (subsets deep4) 3 = find_root (subsets deep4) 0
   \<and> merge_uf deep4 3 0 = Some (deep4\<lparr>subsets := (subsets deep4)[3 := \<lparr>id_f = 0, size_f = 1\<rparr>]\<rparr>)
   \<and> deep4\<lparr>subsets := (subsets deep4)[3 := \<lparr>id_f = 0, size_f = 1\<rparr>]\<rparr> \<noteq> deep4"
proof (intro conjI)
  show "reachable 4 deep4" by (rule reachable_deep4)
qed (simp_all add: uf_eval deep4_def)

definition pair3 :: UnionFind where
  "pair3 = \<lparr>subsets = [\<lparr>id_f = 0, size_f = 2\<rparr>, \<lparr>id_f = 0, size_f = 1\<rparr>,
                       \<lparr>id_f = 2, size_f = 1\<rparr>], nb_subsets = 2\<rparr>"

definition triple3 :: UnionFind where
  "triple3 = \<lparr>subsets = [\<lparr>id_f = 0, size_f = 3\<rparr>, \<lparr>id_f = 0, size_f = 1\<rparr>,
                       \<lparr>id_f = 0, size_f = 1\<rparr>], nb_subsets = 1\<rparr>"

lemma uf_inv_pair3: "uf_inv pair3"
  by (simp add: pair3_def uf_inv_def chains_end_def sizes_ok_def roots_def members_def
      is_root_def find_root.simps upt_rec)

definition pair2 :: UnionFind where
  "pair2 = \<lparr>subsets = [\<lparr>id_f = 0, size_f = 2\<rparr>, \<lparr>id_f = 0, size_f = 1\<rparr>], nb_subsets = 1\<rparr>"

definition deep4_found :: UnionFind where
  "deep4_found = deep4\<lparr>subsets := (subsets deep4)[3 := \<lparr>id_f = 0, size_f = 1\<rparr>]\<rparr>"

text \<open>
  The three cases on concrete states: the root of a smaller subset attached (\<open>merge(2, 1)\<close>
  in \<open>pair3\<close>), a tie (\<open>merge(0, 1)\<close> in the two singletons), and two elements of one subset
  (\<open>merge(3, 0)\<close> in \<open>deep4\<close>).
\<close>

theorem merge_uf_correct_witness:
  "(uf_inv pair3 \<and> (2::nat) < length (subsets pair3) \<and> (1::nat) < length (subsets pair3)
    \<and> find_uf pair3 2 = Some (2, pair3) \<and> find_uf pair3 1 = Some (0, pair3)
    \<and> find_root (subsets pair3) 2 = Some 2 \<and> find_root (subsets pair3) 1 = Some 0
    \<and> size_f (subsets pair3 ! 2) < size_f (subsets pair3 ! 0)
    \<and> merge_uf pair3 2 1 = Some triple3 \<and> uf_inv triple3 \<and> joined pair3 triple3 2 0
    \<and> attached pair3 triple3 2 0)
   \<and> (uf_inv (UnionFind_init 2) \<and> (0::nat) < length (subsets (UnionFind_init 2))
    \<and> (1::nat) < length (subsets (UnionFind_init 2))
    \<and> find_uf (UnionFind_init 2) 0 = Some (0, UnionFind_init 2)
    \<and> find_uf (UnionFind_init 2) 1 = Some (1, UnionFind_init 2)
    \<and> \<not> size_f (subsets (UnionFind_init 2) ! 0) < size_f (subsets (UnionFind_init 2) ! 1)
    \<and> merge_uf (UnionFind_init 2) 0 1 = Some pair2 \<and> uf_inv pair2
    \<and> joined (UnionFind_init 2) pair2 1 0 \<and> attached (UnionFind_init 2) pair2 1 0)
   \<and> (uf_inv deep4 \<and> (3::nat) < length (subsets deep4) \<and> (0::nat) < length (subsets deep4)
    \<and> find_uf deep4 3 = Some (0, deep4_found) \<and> find_uf deep4_found 0 = Some (0, deep4_found)
    \<and> merge_uf deep4 3 0 = Some deep4_found \<and> uf_inv deep4_found
    \<and> nb_subsets deep4_found = nb_subsets deep4
    \<and> map size_f (subsets deep4_found) = map size_f (subsets deep4))"
proof (intro conjI)
  have a: "(2::nat) < length (subsets pair3)" and b: "(1::nat) < length (subsets pair3)"
    by (simp_all add: pair3_def)
  have f1: "find_uf pair3 2 = Some (2, pair3)" and f2: "find_uf pair3 1 = Some (0, pair3)"
    by (simp_all add: pair3_def find_uf_def find_root.simps compress.simps)
  have i: "find_root (subsets pair3) 2 = Some 2" and j: "find_root (subsets pair3) 1 = Some 0"
    and lt: "size_f (subsets pair3 ! 2) < size_f (subsets pair3 ! 0)"
    by (simp_all add: pair3_def find_root.simps)
  have m: "merge_uf pair3 2 1 = Some triple3"
    by (simp add: pair3_def triple3_def merge_uf_def find_uf_def find_root.simps compress.simps attach_def)
  from merge_uf_correct[OF uf_inv_pair3 a b] obtain i' j' u1 u2 u' where
    t: "find_uf pair3 2 = Some (i', u1)" "find_uf u1 1 = Some (j', u2)"
      "merge_uf pair3 2 1 = Some u'" "uf_inv u'"
      "i' \<noteq> j' \<and> size_f (subsets pair3 ! i') < size_f (subsets pair3 ! j')
         \<longrightarrow> joined pair3 u' i' j' \<and> attached u2 u' i' j'"
    by blast
  from t(1) f1 have e1: "i' = 2" "u1 = pair3" by simp_all
  from t(2) f2 e1 have e2: "j' = 0" "u2 = pair3" by simp_all
  from t(3) m have e3: "u' = triple3" by simp
  from t(4,5) lt e1 e2 e3 have r: "uf_inv triple3" "joined pair3 triple3 2 0"
    "attached pair3 triple3 2 0" by simp_all
  show "uf_inv pair3" "(2::nat) < length (subsets pair3)" "(1::nat) < length (subsets pair3)"
    "find_uf pair3 2 = Some (2, pair3)" "find_uf pair3 1 = Some (0, pair3)"
    "find_root (subsets pair3) 2 = Some 2" "find_root (subsets pair3) 1 = Some 0"
    "size_f (subsets pair3 ! 2) < size_f (subsets pair3 ! 0)"
    "merge_uf pair3 2 1 = Some triple3" "uf_inv triple3" "joined pair3 triple3 2 0"
    "attached pair3 triple3 2 0"
    by (rule uf_inv_pair3 a b f1 f2 i j lt m r)+
next
  let ?u = "UnionFind_init 2"
  have inv: "uf_inv ?u" by (rule uf_inv_init)
  have a: "(0::nat) < length (subsets ?u)" and b: "(1::nat) < length (subsets ?u)"
    by (simp_all add: UnionFind_init_def)
  have f1: "find_uf ?u 0 = Some (0, ?u)" and f2: "find_uf ?u 1 = Some (1, ?u)"
    by (simp_all add: uf_eval)
  have ge: "\<not> size_f (subsets ?u ! 0) < size_f (subsets ?u ! 1)" by (simp add: uf_eval)
  have m: "merge_uf ?u 0 1 = Some pair2" by (simp add: uf_eval pair2_def)
  from merge_uf_correct[OF inv a b] obtain i' j' u1 u2 u' where
    t: "find_uf ?u 0 = Some (i', u1)" "find_uf u1 1 = Some (j', u2)"
      "merge_uf ?u 0 1 = Some u'" "uf_inv u'"
      "i' \<noteq> j' \<and> \<not> size_f (subsets ?u ! i') < size_f (subsets ?u ! j')
         \<longrightarrow> joined ?u u' j' i' \<and> attached u2 u' j' i'"
    by blast
  from t(1) f1 have e1: "i' = 0" "u1 = ?u" by simp_all
  from t(2) f2 e1 have e2: "j' = 1" "u2 = ?u" by simp_all
  from t(3) m have e3: "u' = pair2" by simp
  from t(4,5) ge e1 e2 e3 have r: "uf_inv pair2" "joined ?u pair2 1 0" "attached ?u pair2 1 0"
    by simp_all
  show "uf_inv ?u" "(0::nat) < length (subsets ?u)" "(1::nat) < length (subsets ?u)"
    "find_uf ?u 0 = Some (0, ?u)" "find_uf ?u 1 = Some (1, ?u)"
    "\<not> size_f (subsets ?u ! 0) < size_f (subsets ?u ! 1)"
    "merge_uf ?u 0 1 = Some pair2" "uf_inv pair2" "joined ?u pair2 1 0" "attached ?u pair2 1 0"
    by (rule inv a b f1 f2 ge m r)+
next
  have inv: "uf_inv deep4" using reachable_inv[OF reachable_deep4] by simp
  have a: "(3::nat) < length (subsets deep4)" and b: "(0::nat) < length (subsets deep4)"
    by (simp_all add: deep4_def)
  have f1: "find_uf deep4 3 = Some (0, deep4_found)"
    and f2: "find_uf deep4_found 0 = Some (0, deep4_found)"
    by (simp_all add: uf_eval deep4_def deep4_found_def)
  have m: "merge_uf deep4 3 0 = Some deep4_found" by (simp add: uf_eval deep4_def deep4_found_def)
  from merge_uf_correct[OF inv a b] obtain i' j' u1 u2 u' where
    t: "find_uf deep4 3 = Some (i', u1)" "find_uf u1 0 = Some (j', u2)"
      "merge_uf deep4 3 0 = Some u'" "uf_inv u'"
      "i' = j' \<longrightarrow> u' = u2 \<and> nb_subsets u' = nb_subsets deep4
                  \<and> (\<forall>z. find_root (subsets u') z = find_root (subsets deep4) z)
                  \<and> map size_f (subsets u') = map size_f (subsets deep4)"
    by blast
  from t(1) f1 have e1: "i' = 0" "u1 = deep4_found" by simp_all
  from t(2) f2 e1 have e2: "j' = 0" "u2 = deep4_found" by simp_all
  from t(3) m have e3: "u' = deep4_found" by simp
  from t(4,5) e1 e2 e3 have r: "uf_inv deep4_found" "nb_subsets deep4_found = nb_subsets deep4"
    "map size_f (subsets deep4_found) = map size_f (subsets deep4)" by simp_all
  show "uf_inv deep4" "(3::nat) < length (subsets deep4)" "(0::nat) < length (subsets deep4)"
    "find_uf deep4 3 = Some (0, deep4_found)" "find_uf deep4_found 0 = Some (0, deep4_found)"
    "merge_uf deep4 3 0 = Some deep4_found" "uf_inv deep4_found"
    "nb_subsets deep4_found = nb_subsets deep4"
    "map size_f (subsets deep4_found) = map size_f (subsets deep4)"
    by (rule inv a b f1 f2 m r)+
qed

text \<open>
  Claim C8. In every state reachable from \<open>UnionFind(n)\<close> by finds and merges of elements
  below \<open>n\<close>, the number of indices \<open>i\<close> with \<open>subsets[i].id == i\<close> equals \<open>nb_subsets\<close>, and
  the parent chain of every element ends at such a root; in the freshly constructed state
  \<open>nb_subsets == n\<close> and \<open>find(x) == x\<close> for every \<open>x < n\<close>.
\<close>

theorem uf_invariant:
  "(reachable n u \<longrightarrow>
      length (subsets u) = n
      \<and> card {i. i < n \<and> id_f (subsets u ! i) = i} = nb_subsets u
      \<and> (\<forall>x<n. \<exists>r k. r < n \<and> id_f (subsets u ! r) = r \<and> ancestor (subsets u) k x = r
                      \<and> find_root (subsets u) x = Some r))
   \<and> nb_subsets (UnionFind_init n) = n
   \<and> (\<forall>x<n. find_uf (UnionFind_init n) x = Some (x, UnionFind_init n))"
proof (intro conjI impI allI)
  assume re: "reachable n u"
  from reachable_inv[OF re] have inv: "uf_inv u" and len: "length (subsets u) = n" by simp_all
  show "length (subsets u) = n" by (rule len)
  have "{i. i < n \<and> id_f (subsets u ! i) = i} = {x. is_root (subsets u) x}"
    using len by (auto simp: is_root_def)
  then show "card {i. i < n \<and> id_f (subsets u ! i) = i} = nb_subsets u"
    using inv by (simp add: uf_inv_def length_roots_card)
  fix x assume x: "x < n"
  from inv have ce: "chains_end (subsets u)" by (simp add: uf_inv_def)
  from chains_endD[OF ce] x len obtain r where r: "find_root (subsets u) x = Some r" by auto
  then obtain k where k: "root_within k (subsets u) x = Some r" by (auto simp: find_root_iff)
  from root_within_ancestor_ex[OF k] obtain j where j: "ancestor (subsets u) j x = r" ..
  have "is_root (subsets u) r" using r by (rule find_root_is_root)
  then have "r < n" "id_f (subsets u ! r) = r" using len by (simp_all add: is_root_def)
  with j r show "\<exists>r k. r < n \<and> id_f (subsets u ! r) = r \<and> ancestor (subsets u) k x = r
                      \<and> find_root (subsets u) x = Some r" by blast
next
  show "nb_subsets (UnionFind_init n) = n" by (simp add: UnionFind_init_def)
next
  fix x assume x: "x < n"
  let ?ss = "subsets (UnionFind_init n)"
  have l: "length ?ss = n" by (simp add: UnionFind_init_def)
  have r: "is_root ?ss x" using x by (simp add: is_root_def UnionFind_init_def)
  then have "find_root ?ss x = Some x" by (rule is_root_find_root)
  moreover have "compress ?ss x x = Some ?ss" using r by (subst compress.simps) (simp add: is_root_def)
  ultimately show "find_uf (UnionFind_init n) x = Some (x, UnionFind_init n)"
    by (simp add: find_uf_def)
qed

theorem uf_invariant_witness:
  "reachable 4 deep4
   \<and> length (subsets deep4) = 4
   \<and> card {i. i < 4 \<and> id_f (subsets deep4 ! i) = i} = nb_subsets deep4
   \<and> (\<exists>r k. r < 4 \<and> id_f (subsets deep4 ! r) = r \<and> ancestor (subsets deep4) k 3 = r
              \<and> find_root (subsets deep4) 3 = Some r)
   \<and> nb_subsets (UnionFind_init 4) = 4
   \<and> find_uf (UnionFind_init 4) 2 = Some (2, UnionFind_init 4)"
proof -
  note t = uf_invariant[of 4 deep4]
  from t reachable_deep4 have 1: "length (subsets deep4) = 4"
    and 2: "card {i. i < 4 \<and> id_f (subsets deep4 ! i) = i} = nb_subsets deep4"
    and 3: "\<forall>x<4. \<exists>r k. r < 4 \<and> id_f (subsets deep4 ! r) = r \<and> ancestor (subsets deep4) k x = r
              \<and> find_root (subsets deep4) x = Some r"
    by blast+
  from t have 4: "nb_subsets (UnionFind_init 4) = 4"
    and 5: "\<forall>x<4. find_uf (UnionFind_init 4) x = Some (x, UnionFind_init 4)" by blast+
  from 3 have c3: "\<exists>r k. r < 4 \<and> id_f (subsets deep4 ! r) = r \<and> ancestor (subsets deep4) k 3 = r
              \<and> find_root (subsets deep4) 3 = Some r" by simp
  from 5 have c5: "find_uf (UnionFind_init 4) 2 = Some (2, UnionFind_init 4)" by simp
  from reachable_deep4 1 2 c3 4 c5 show ?thesis by (intro conjI)
qed

section \<open>Properties of the contraction algorithms\<close>

subsection \<open>Swaps\<close>

lemma iter_swap_length: "length (iter_swap xs i j) = length xs"
  by (simp add: iter_swap_def)

lemma iter_swap_mset: "i < length xs \<Longrightarrow> j < length xs \<Longrightarrow> mset (iter_swap xs i j) = mset xs"
  by (simp add: iter_swap_def mset_swap)

lemma iter_swap_nth: "i \<le> j \<Longrightarrow> j < length xs \<Longrightarrow> iter_swap xs i j ! i = xs ! j"
  by (cases "i = j") (simp_all add: iter_swap_def)

lemma iter_swap_take: "i \<le> j \<Longrightarrow> take i (iter_swap xs i j) = take i xs"
  by (simp add: iter_swap_def)

lemma mset_drop_cancel:
  assumes "mset xs' = mset xs" "take i xs' = take i xs"
  shows "mset (drop i xs') = mset (drop i xs)"
proof -
  have "mset (take i xs') + mset (drop i xs') = mset (take i xs) + mset (drop i xs)"
    using assms(1) by (simp only: mset_append[symmetric] append_take_drop_id)
  then show ?thesis using assms(2) by simp
qed

subsection \<open>The partition of a structure\<close>

lemma uf_relI:
  "x < length (subsets u) \<Longrightarrow> y < length (subsets u) \<Longrightarrow>
   find_root (subsets u) x = find_root (subsets u) y \<Longrightarrow> (x, y) \<in> uf_rel u"
  by (simp add: uf_rel_def)

lemma uf_rel_sym: "(x, y) \<in> uf_rel u \<Longrightarrow> (y, x) \<in> uf_rel u"
  by (simp add: uf_rel_def)

lemma rtrancl_uf_rel: "(x, y) \<in> (uf_rel u)\<^sup>* \<Longrightarrow> x = y \<or> (x, y) \<in> uf_rel u"
  by (induction rule: rtrancl_induct) (auto simp: uf_rel_def)

lemma uf_rel_cong:
  "length (subsets u') = length (subsets u) \<Longrightarrow>
   (\<And>z. find_root (subsets u') z = find_root (subsets u) z) \<Longrightarrow> uf_rel u' = uf_rel u"
  by (simp add: uf_rel_def)

lemma merge_uf_rel:
  assumes inv: "uf_inv u" and x: "x < length (subsets u)" and y: "y < length (subsets u)"
  shows "\<exists>u'. merge_uf u x y = Some u' \<and> uf_inv u' \<and> length (subsets u') = length (subsets u)
     \<and> uf_rel u \<subseteq> uf_rel u' \<and> (x, y) \<in> uf_rel u'
     \<and> uf_rel u' \<subseteq> (uf_rel u \<union> {(x, y), (y, x)})\<^sup>*
     \<and> nb_subsets u' \<le> nb_subsets u \<and> nb_subsets u \<le> Suc (nb_subsets u')"
proof -
  from merge_uf_cases[OF inv x y] obtain i j u' where
    i: "find_root (subsets u) x = Some i" and j: "find_root (subsets u) y = Some j"
    and m: "merge_uf u x y = Some u'" and inv': "uf_inv u'"
    and len: "length (subsets u') = length (subsets u)"
    and same: "i = j \<longrightarrow> nb_subsets u' = nb_subsets u
                  \<and> (\<forall>z. find_root (subsets u') z = find_root (subsets u) z)"
    and lt: "i \<noteq> j \<and> size_f (subsets u ! i) < size_f (subsets u ! j) \<longrightarrow> joined u u' i j"
    and ge: "i \<noteq> j \<and> \<not> size_f (subsets u ! i) < size_f (subsets u ! j) \<longrightarrow> joined u u' j i"
    by blast
  have ce: "chains_end (subsets u)" using inv by (simp add: uf_inv_def)
  let ?R = "uf_rel u \<union> {(x, y), (y, x)}"
  have "uf_rel u \<subseteq> uf_rel u' \<and> (x, y) \<in> uf_rel u'
     \<and> uf_rel u' \<subseteq> ?R\<^sup>*
     \<and> nb_subsets u' \<le> nb_subsets u \<and> nb_subsets u \<le> Suc (nb_subsets u')"
  proof (cases "i = j")
    case True
    with same have nb: "nb_subsets u' = nb_subsets u"
      and fr: "\<And>z. find_root (subsets u') z = find_root (subsets u) z" by simp_all
    have e: "uf_rel u' = uf_rel u" using len fr by (rule uf_rel_cong)
    moreover have "(x, y) \<in> uf_rel u" using x y i j True by (simp add: uf_rel_def)
    moreover have "uf_rel u \<subseteq> ?R\<^sup>*" by auto
    ultimately show ?thesis using nb by simp
  next
    case False
    then obtain c p where cp: "joined u u' c p" and ij: "(c = i \<and> p = j) \<or> (c = j \<and> p = i)"
      using lt ge by blast
    from cp have nb: "Suc (nb_subsets u') = nb_subsets u"
      and fr: "\<And>z s. find_root (subsets u) z = Some s \<Longrightarrow>
             find_root (subsets u') z = Some (if s = c then p else s)"
      by (simp_all add: joined_def)
    have sub: "uf_rel u \<subseteq> uf_rel u'"
    proof
      fix ab assume ab: "ab \<in> uf_rel u"
      obtain a b where [simp]: "ab = (a, b)" by (cases ab)
      from ab have a: "a < length (subsets u)" and b: "b < length (subsets u)"
        and eq: "find_root (subsets u) a = find_root (subsets u) b" by (simp_all add: uf_rel_def)
      from chains_endD[OF ce a] obtain s where s: "find_root (subsets u) a = Some s" ..
      from fr[OF s] fr[of b s] eq s have "find_root (subsets u') a = find_root (subsets u') b" by simp
      then show "ab \<in> uf_rel u'" using a b len by (simp add: uf_rel_def)
    qed
    have "find_root (subsets u') x = Some p" using fr[OF i] ij by auto
    moreover have "find_root (subsets u') y = Some p" using fr[OF j] ij by auto
    ultimately have xy: "(x, y) \<in> uf_rel u'" using x y len by (simp add: uf_rel_def)
    have xy1: "(x, y) \<in> ?R\<^sup>*" and yx1: "(y, x) \<in> ?R\<^sup>*" by auto
    have via: "(a, b) \<in> ?R\<^sup>*"
      if a: "a < length (subsets u)" and b: "b < length (subsets u)"
        and ra: "find_root (subsets u) a = Some i" and rb: "find_root (subsets u) b = Some j"
      for a b
    proof -
      have "(a, x) \<in> uf_rel u" using a x ra i by (simp add: uf_rel_def)
      then have 1: "(a, x) \<in> ?R\<^sup>*" by auto
      have "(y, b) \<in> uf_rel u" using b y rb j by (simp add: uf_rel_def)
      then have 2: "(y, b) \<in> ?R\<^sup>*" by auto
      from 1 xy1 have "(a, y) \<in> ?R\<^sup>*" by (rule rtrancl_trans)
      then show ?thesis using 2 by (rule rtrancl_trans)
    qed
    have via': "(a, b) \<in> ?R\<^sup>*"
      if a: "a < length (subsets u)" and b: "b < length (subsets u)"
        and ra: "find_root (subsets u) a = Some j" and rb: "find_root (subsets u) b = Some i"
      for a b
    proof -
      have "(a, y) \<in> uf_rel u" using a y ra j by (simp add: uf_rel_def)
      then have 1: "(a, y) \<in> ?R\<^sup>*" by auto
      have "(x, b) \<in> uf_rel u" using b x rb i by (simp add: uf_rel_def)
      then have 2: "(x, b) \<in> ?R\<^sup>*" by auto
      from 1 yx1 have "(a, x) \<in> ?R\<^sup>*" by (rule rtrancl_trans)
      then show ?thesis using 2 by (rule rtrancl_trans)
    qed
    have sup: "uf_rel u' \<subseteq> ?R\<^sup>*"
    proof
      fix ab assume ab: "ab \<in> uf_rel u'"
      obtain a b where [simp]: "ab = (a, b)" by (cases ab)
      from ab len have a: "a < length (subsets u)" and b: "b < length (subsets u)"
        and eq: "find_root (subsets u') a = find_root (subsets u') b" by (simp_all add: uf_rel_def)
      from chains_endD[OF ce a] obtain s where s: "find_root (subsets u) a = Some s" ..
      from chains_endD[OF ce b] obtain s' where s': "find_root (subsets u) b = Some s'" ..
      from fr[OF s] fr[OF s'] eq have e: "(if s = c then p else s) = (if s' = c then p else s')"
        by simp
      show "ab \<in> ?R\<^sup>*"
      proof (cases "s = s'")
        case True
        then have "(a, b) \<in> uf_rel u" using a b s s' by (simp add: uf_rel_def)
        then show ?thesis by auto
      next
        case ne: False
        then have "(s = c \<and> s' = p) \<or> (s = p \<and> s' = c)" using e by (auto split: if_splits)
        then have "(s = i \<and> s' = j) \<or> (s = j \<and> s' = i)" using ij by auto
        then show ?thesis using via[OF a b] via'[OF a b] s s' by auto
      qed
    qed
    from sub xy sup nb show ?thesis by simp
  qed
  with m inv' len show ?thesis by blast
qed

lemma find_uf_rel:
  assumes "uf_inv u" "x < length (subsets u)"
  shows "\<exists>r u'. find_uf u x = Some (r, u') \<and> find_root (subsets u) x = Some r \<and> uf_inv u'
     \<and> length (subsets u') = length (subsets u) \<and> nb_subsets u' = nb_subsets u
     \<and> (\<forall>z. find_root (subsets u') z = find_root (subsets u) z)"
proof -
  have ce: "chains_end (subsets u)" using assms(1) by (simp add: uf_inv_def)
  from find_uf_Some[OF ce assms(2)] obtain r ss' where
    f: "find_uf u x = Some (r, u\<lparr>subsets := ss'\<rparr>)" by blast
  let ?u' = "u\<lparr>subsets := ss'\<rparr>"
  have "find_uf u x = Some (r, ?u') \<and> find_root (subsets u) x = Some r \<and> uf_inv ?u'
     \<and> length (subsets ?u') = length (subsets u) \<and> nb_subsets ?u' = nb_subsets u
     \<and> (\<forall>z. find_root (subsets ?u') z = find_root (subsets u) z)"
    using f find_uf_inv[OF assms f] by simp
  then show ?thesis by (intro exI)
qed

lemma connected_uf_Some:
  assumes inv: "uf_inv u" and x: "x < length (subsets u)" and y: "y < length (subsets u)"
  shows "\<exists>u'. connected_uf u x y = Some (find_root (subsets u) x = find_root (subsets u) y, u')
     \<and> uf_inv u' \<and> length (subsets u') = length (subsets u) \<and> nb_subsets u' = nb_subsets u
     \<and> (\<forall>z. find_root (subsets u') z = find_root (subsets u) z)"
proof -
  from find_uf_rel[OF inv x] obtain i u1 where
    f1: "find_uf u x = Some (i, u1)" and i: "find_root (subsets u) x = Some i"
    and u1: "uf_inv u1" "length (subsets u1) = length (subsets u)" "nb_subsets u1 = nb_subsets u"
      "\<forall>z. find_root (subsets u1) z = find_root (subsets u) z" by blast
  have y1: "y < length (subsets u1)" using y u1(2) by simp
  from find_uf_rel[OF u1(1) y1] obtain j u2 where
    f2: "find_uf u1 y = Some (j, u2)" and j: "find_root (subsets u1) y = Some j"
    and u2: "uf_inv u2" "length (subsets u2) = length (subsets u1)" "nb_subsets u2 = nb_subsets u1"
      "\<forall>z. find_root (subsets u2) z = find_root (subsets u1) z" by blast
  have j': "find_root (subsets u) y = Some j" using j u1(4) by simp
  have "(i = j) = (find_root (subsets u) x = find_root (subsets u) y)"
    unfolding i j' by auto
  moreover have "connected_uf u x y = Some (i = j, u2)" using f1 f2 by (simp add: connected_uf_def)
  ultimately have c: "connected_uf u x y = Some (find_root (subsets u) x = find_root (subsets u) y, u2)"
    by simp
  have l: "length (subsets u2) = length (subsets u)" using u1(2) u2(2) by simp
  have n: "nb_subsets u2 = nb_subsets u" using u1(3) u2(3) by simp
  have f: "\<forall>z. find_root (subsets u2) z = find_root (subsets u) z" using u1(4) u2(4) by simp
  from c u2(1) l n f show ?thesis by (intro exI[of _ u2] conjI)
qed

subsection \<open>Connected contracted graphs\<close>

lemma edge_rel_Cons: "edge_rel (e # es) = {(tail e, head e), (head e, tail e)} \<union> edge_rel es"
  by (auto simp: edge_rel_def)

lemma edge_rel_mset: "mset es' = mset es \<Longrightarrow> edge_rel es' = edge_rel es"
  using mset_eq_setD[of es' es] by (simp add: edge_rel_def)

lemma connected_over_mono:
  assumes "connected_over u es" "length (subsets u') = length (subsets u)"
    "uf_rel u \<union> edge_rel es \<subseteq> (uf_rel u' \<union> edge_rel es')\<^sup>*"
  shows "connected_over u' es'"
  unfolding connected_over_def
proof (intro allI impI)
  fix x y assume "x < length (subsets u')" "y < length (subsets u')"
  then have "(x, y) \<in> (uf_rel u \<union> edge_rel es)\<^sup>*"
    using assms(1,2) by (simp add: connected_over_def)
  then show "(x, y) \<in> (uf_rel u' \<union> edge_rel es')\<^sup>*"
    using assms(3) by (meson rtrancl_subset_rtrancl subsetD)
qed

lemma connected_over_nil:
  assumes inv: "uf_inv u" and conn: "connected_over u []"
  shows "nb_subsets u \<le> 1"
proof -
  let ?R = "{x. is_root (subsets u) x}"
  have fin: "finite ?R" using finite_set[of "roots (subsets u)"] by (simp add: set_roots)
  have "a = b" if "a \<in> ?R" "b \<in> ?R" for a b
  proof -
    from that have a: "is_root (subsets u) a" and b: "is_root (subsets u) b" by simp_all
    then have al: "a < length (subsets u)" and bl: "b < length (subsets u)"
      by (simp_all add: is_root_def)
    with conn have "(a, b) \<in> (uf_rel u)\<^sup>*" by (simp add: connected_over_def edge_rel_def)
    from rtrancl_uf_rel[OF this] show ?thesis
      using is_root_find_root[OF a] is_root_find_root[OF b] by (auto simp: uf_rel_def)
  qed
  then have "card ?R \<le> Suc 0" using fin by (simp add: card_le_Suc0_iff_eq)
  then show ?thesis using inv by (simp add: uf_inv_def length_roots_card)
qed

subsection \<open>The contraction loop\<close>

lemma contraction_loop_stop:
  "nb_subsets u = k \<Longrightarrow> contraction_loop draw k g u es start m = Some (g, u, es, start)"
  by (subst contraction_loop.simps) simp

lemma contraction_loop_step:
  assumes "nb_subsets u \<noteq> k" "draw g m = (r, g1)"
    "contraction_loop draw k g u es start m = Some res"
  shows "0 \<le> r \<and> r \<le> m \<and> start + nat r < length es
     \<and> (\<exists>u1. merge_uf u (tail (iter_swap es start (start + nat r) ! start))
                        (head (iter_swap es start (start + nat r) ! start)) = Some u1
          \<and> contraction_loop draw k g1 u1 (iter_swap es start (start + nat r)) (Suc start) (m - 1)
              = Some res)"
  using assms
  by (subst (asm) contraction_loop.simps) (auto simp: Let_def split: if_splits option.splits)

text \<open>Whenever the loop returns, it has only swapped edges at or after the cursor.\<close>

lemma contraction_loop_perm:
  "contraction_loop draw k g u es start m = Some (g', u', es', start') \<Longrightarrow>
   mset es' = mset es \<and> start \<le> start' \<and> take start es' = take start es"
proof (induction "nat (m + 1)" arbitrary: g u es start m rule: less_induct)
  case less
  show ?case
  proof (cases "nb_subsets u = k")
    case True
    then show ?thesis using less.prems by (simp add: contraction_loop_stop)
  next
    case False
    obtain r g1 where d: "draw g m = (r, g1)" by (cases "draw g m")
    let ?es = "iter_swap es start (start + nat r)"
    from contraction_loop_step[OF False d less.prems] obtain u1 where
      r: "0 \<le> r" "r \<le> m" "start + nat r < length es"
      and rec: "contraction_loop draw k g1 u1 ?es (Suc start) (m - 1) = Some (g', u', es', start')"
      by blast
    have "nat (m - 1 + 1) < nat (m + 1)" using r by simp
    from less.hyps[OF this rec] have IH: "mset es' = mset ?es" "Suc start \<le> start'"
      "take (Suc start) es' = take (Suc start) ?es" by simp_all
    have ms: "mset ?es = mset es" using r(3) by (intro iter_swap_mset) simp_all
    have "take start es' = take start (take (Suc start) es')" by (simp add: min_def)
    also have "\<dots> = take start ?es" unfolding IH(3) by (simp add: min_def)
    also have "\<dots> = take start es" by (rule iter_swap_take) simp
    finally show ?thesis using IH ms by simp
  qed
qed

definition loop_post :: "nat \<Rightarrow> UnionFind \<Rightarrow> Edge list \<Rightarrow> nat \<Rightarrow> UnionFind \<Rightarrow> Edge list \<Rightarrow> nat \<Rightarrow> bool" where
  "loop_post k u es start u' es' start' =
     (nb_subsets u' = k \<and> uf_inv u' \<and> length (subsets u') = length (subsets u)
      \<and> start' \<le> length es
      \<and> connected_over u' (drop start' es')
      \<and> uf_rel u \<subseteq> uf_rel u'
      \<and> (\<forall>i. start \<le> i \<and> i < start' \<longrightarrow> (tail (es' ! i), head (es' ! i)) \<in> uf_rel u')
      \<and> uf_rel u' \<subseteq> (uf_rel u \<union> edge_rel (drop start (take start' es')))\<^sup>*)"

lemma contraction_loop_total:
  assumes rng: "distribution_ok draw" and k: "1 \<le> k"
  shows "uf_inv u \<Longrightarrow> edges_ok (length (subsets u)) es \<Longrightarrow> connected_over u (drop start es)
    \<Longrightarrow> k \<le> nb_subsets u \<Longrightarrow> start \<le> length es \<Longrightarrow> m = int (length es) - 1 - int start
    \<Longrightarrow> \<exists>g' u' es' start'.
          contraction_loop draw k g u es start m = Some (g', u', es', start')
          \<and> loop_post k u es start u' es' start'"
proof (induction "length es - start" arbitrary: g u es start m rule: less_induct)
  case less
  note inv = less.prems(1) and eok = less.prems(2) and conn = less.prems(3)
    and kle = less.prems(4) and sl = less.prems(5) and m = less.prems(6)
  show ?case
  proof (cases "nb_subsets u = k")
    case True
    have "uf_rel u \<subseteq> (uf_rel u \<union> edge_rel (drop start (take start es)))\<^sup>*" by auto
    then have "loop_post k u es start u es start"
      unfolding loop_post_def using True inv sl conn by auto
    then have "contraction_loop draw k g u es start m = Some (g, u, es, start)
          \<and> loop_post k u es start u es start"
      using True by (simp add: contraction_loop_stop)
    then show ?thesis by (intro exI)
  next
    case False
    have ne: "drop start es \<noteq> []"
    proof
      assume "drop start es = []"
      with conn have "connected_over u []" by simp
      from connected_over_nil[OF inv this] kle k False show False by simp
    qed
    then have sl': "start < length es" by simp
    then have m0: "0 \<le> m" using m by simp
    obtain r g1 where d: "draw g m = (r, g1)" by (cases "draw g m")
    have "0 \<le> fst (draw g m) \<and> fst (draw g m) \<le> m"
      using rng m0 by (simp add: distribution_ok_def)
    then have r: "0 \<le> r" "r \<le> m" using d by simp_all
    let ?j = "start + nat r"
    have jl: "?j < length es" using r m sl' by simp
    let ?es = "iter_swap es start ?j"
    let ?e = "?es ! start"
    have e: "?e = es ! ?j" by (rule iter_swap_nth) (use jl in simp_all)
    then have "?e \<in> set es" using jl by simp
    then have t: "tail ?e < length (subsets u)" and h: "head ?e < length (subsets u)"
      using eok by (simp_all add: edges_ok_def)
    from merge_uf_rel[OF inv t h] obtain u1 where
      mg: "merge_uf u (tail ?e) (head ?e) = Some u1" and inv1: "uf_inv u1"
      and len1: "length (subsets u1) = length (subsets u)"
      and sub1: "uf_rel u \<subseteq> uf_rel u1" and th: "(tail ?e, head ?e) \<in> uf_rel u1"
      and sup1: "uf_rel u1 \<subseteq> (uf_rel u \<union> {(tail ?e, head ?e), (head ?e, tail ?e)})\<^sup>*"
      and nb1: "nb_subsets u1 \<le> nb_subsets u" "nb_subsets u \<le> Suc (nb_subsets u1)" by blast
    have unf: "contraction_loop draw k g u es start m
        = contraction_loop draw k g1 u1 ?es (Suc start) (m - 1)"
      using False m0 d r jl mg by (subst contraction_loop.simps) (simp add: Let_def)
    have ms: "mset ?es = mset es" using jl sl' by (intro iter_swap_mset) simp_all
    have lenes: "length ?es = length es" by (rule iter_swap_length)
    have tk: "take start ?es = take start es" by (rule iter_swap_take) simp
    have md: "mset (drop start ?es) = mset (drop start es)" using ms tk by (rule mset_drop_cancel)
    have dr: "drop start ?es = ?e # drop (Suc start) ?es"
      using sl' lenes by (simp add: Cons_nth_drop_Suc)
    have er: "edge_rel (drop start es) = {(tail ?e, head ?e), (head ?e, tail ?e)} \<union> edge_rel (drop (Suc start) ?es)"
      using edge_rel_mset[OF md] dr by (simp add: edge_rel_Cons)
    have eok1: "edges_ok (length (subsets u1)) ?es"
      using eok mset_eq_setD[OF ms] len1 by (simp add: edges_ok_def)
    have conn1: "connected_over u1 (drop (Suc start) ?es)"
    proof (rule connected_over_mono[OF conn len1])
      have "uf_rel u \<union> edge_rel (drop start es) \<subseteq> uf_rel u1 \<union> edge_rel (drop (Suc start) ?es)"
        using sub1 th uf_rel_sym[OF th] unfolding er by auto
      then show "uf_rel u \<union> edge_rel (drop start es) \<subseteq> (uf_rel u1 \<union> edge_rel (drop (Suc start) ?es))\<^sup>*"
        by auto
    qed
    have k1: "k \<le> nb_subsets u1" using kle False nb1 by simp
    have meas: "length ?es - Suc start < length es - start" using sl' lenes by simp
    have sl1: "Suc start \<le> length ?es" using sl' lenes by simp
    have m1: "m - 1 = int (length ?es) - 1 - int (Suc start)" using m lenes by simp
    from less.hyps[OF meas inv1 eok1 conn1 k1 sl1 m1, of g1] obtain g' u' es' start' where
      res: "contraction_loop draw k g1 u1 ?es (Suc start) (m - 1) = Some (g', u', es', start')"
      and post: "loop_post k u1 ?es (Suc start) u' es' start'"
      by blast
    from post have P: "nb_subsets u' = k" "uf_inv u'" "length (subsets u') = length (subsets u1)"
        "start' \<le> length ?es" "connected_over u' (drop start' es')" "uf_rel u1 \<subseteq> uf_rel u'"
        "\<forall>i. Suc start \<le> i \<and> i < start' \<longrightarrow> (tail (es' ! i), head (es' ! i)) \<in> uf_rel u'"
        "uf_rel u' \<subseteq> (uf_rel u1 \<union> edge_rel (drop (Suc start) (take start' es')))\<^sup>*"
      unfolding loop_post_def by blast+
    from contraction_loop_perm[OF res] have tk': "take (Suc start) es' = take (Suc start) ?es"
      and ss': "Suc start \<le> start'" and ms': "mset es' = mset ?es" by simp_all
    have "es' ! start = take (Suc start) es' ! start" by simp
    also have "\<dots> = ?e" unfolding tk' by simp
    finally have es: "es' ! start = ?e" .
    have cons: "\<forall>i. start \<le> i \<and> i < start' \<longrightarrow> (tail (es' ! i), head (es' ! i)) \<in> uf_rel u'"
    proof (intro allI impI)
      fix i assume i: "start \<le> i \<and> i < start'"
      show "(tail (es' ! i), head (es' ! i)) \<in> uf_rel u'"
      proof (cases "i = start")
        case True
        then show ?thesis using es th P(6) by auto
      next
        case False
        then show ?thesis using i P(7) by simp
      qed
    qed
    have l: "length (subsets u') = length (subsets u)" using P(3) len1 by simp
    have s: "start' \<le> length es" using P(4) lenes by simp
    have su: "uf_rel u \<subseteq> uf_rel u'" using sub1 P(6) by simp
    have les': "length es' = length es" using mset_eq_length[OF ms'] lenes by simp
    have "start < length (take start' es')" using ss' s les' by simp
    then have "drop start (take start' es')
        = take start' es' ! start # drop (Suc start) (take start' es')"
      by (rule Cons_nth_drop_Suc[symmetric])
    moreover have "take start' es' ! start = ?e" using ss' es by simp
    ultimately have er': "edge_rel (drop start (take start' es'))
        = {(tail ?e, head ?e), (head ?e, tail ?e)} \<union> edge_rel (drop (Suc start) (take start' es'))"
      by (simp add: edge_rel_Cons)
    have ex: "uf_rel u' \<subseteq> (uf_rel u \<union> edge_rel (drop start (take start' es')))\<^sup>*"
    proof -
      let ?E1 = "edge_rel (drop (Suc start) (take start' es'))"
      let ?T = "uf_rel u \<union> edge_rel (drop start (take start' es'))"
      have "uf_rel u \<union> {(tail ?e, head ?e), (head ?e, tail ?e)} \<subseteq> ?T" unfolding er' by auto
      then have "(uf_rel u \<union> {(tail ?e, head ?e), (head ?e, tail ?e)})\<^sup>* \<subseteq> ?T\<^sup>*"
        by (rule rtrancl_mono)
      with sup1 have a: "uf_rel u1 \<subseteq> ?T\<^sup>*" by (rule subset_trans)
      have b: "?E1 \<subseteq> ?T\<^sup>*" unfolding er' by auto
      from a b have "uf_rel u1 \<union> ?E1 \<subseteq> ?T\<^sup>*" by (rule Un_least)
      then have "(uf_rel u1 \<union> ?E1)\<^sup>* \<subseteq> ?T\<^sup>*" by (rule rtrancl_subset_rtrancl)
      with P(8) show ?thesis by (rule subset_trans)
    qed
    have "loop_post k u es start u' es' start'"
      unfolding loop_post_def using P(1,2,5) l s su cons ex by (intro conjI)
    then have "contraction_loop draw k g u es start m = Some (g', u', es', start')
          \<and> loop_post k u es start u' es' start'"
      using unf res by simp
    then show ?thesis by (intro exI)
  qed
qed

subsection \<open>The loop with its 32-bit counter\<close>

lemma int32_of_id: "- 2147483648 \<le> x \<Longrightarrow> x < 2147483648 \<Longrightarrow> int32_of x = x"
  by (simp add: int32_of_def)

lemma int32_of_range: "- 2147483648 \<le> int32_of x \<and> int32_of x < 2147483648"
  by (simp add: int32_of_def)

lemma contraction_stop: "nb_subsets u = k \<Longrightarrow> contraction draw k g u es = Some (g, u, es, 0)"
  by (simp add: contraction_def contraction_loop_stop)

lemma contraction_perm:
  "contraction draw k g u es = Some (g', u', es', start') \<Longrightarrow> mset es' = mset es"
  using contraction_loop_perm[of draw k g u es 0 _ g' u' es' start'] by (simp add: contraction_def)

lemma contraction_total:
  assumes rng: "distribution_ok draw" and k: "1 \<le> k"
    and inv: "uf_inv u" and eok: "edges_ok (length (subsets u)) es"
    and conn: "connected_over u es" and kle: "k \<le> nb_subsets u"
    and len: "length es \<le> 2147483648"
  shows "\<exists>g' u' es' start'.
          contraction draw k g u es = Some (g', u', es', start')
          \<and> loop_post k u es 0 u' es' start'"
proof -
  have m: "int32_of (int (length es) - 1) = int (length es) - 1 - int 0"
    using len by (simp add: int32_of_id)
  have conn0: "connected_over u (drop 0 es)" using conn by simp
  have "0 \<le> length es" by simp
  from contraction_loop_total[OF rng k inv eok conn0 kle this m, of g]
  show ?thesis by (simp add: contraction_def)
qed

text \<open>
  With more than \<open>2\<^sup>3\<^sup>1\<close> edges the counter does not start at the last index; with
  \<open>2\<^sup>3\<^sup>1 + 1\<close> edges it starts below \<open>0\<close>, and a loop that has still to merge builds the
  distribution \<open>{0, m}\<close> with \<open>m < 0\<close>.
\<close>

lemma contraction_overflow:
  assumes "length es = 2147483649" "nb_subsets u \<noteq> k"
  shows "contraction draw k g u es = None"
proof -
  have "int32_of (int (length es) - 1) = - 2147483648" using assms(1) by (simp add: int32_of_def)
  then show ?thesis using assms(2)
    by (simp add: contraction_def) (subst contraction_loop.simps, simp)
qed

subsection \<open>Counting and copying the crossing edges\<close>

lemma crossing_cong:
  "(\<And>z. find_root (subsets u') z = find_root (subsets u) z) \<Longrightarrow> crossing u' = crossing u"
  by (rule ext) (simp add: crossing_def)

lemma count_if_not_connected_Some:
  "uf_inv u \<Longrightarrow> edges_ok (length (subsets u)) es \<Longrightarrow>
   \<exists>u'. count_if_not_connected u es = Some (length (filter (crossing u) es), u')
     \<and> uf_inv u' \<and> length (subsets u') = length (subsets u) \<and> nb_subsets u' = nb_subsets u
     \<and> (\<forall>z. find_root (subsets u') z = find_root (subsets u) z)"
proof (induction es arbitrary: u)
  case Nil
  then show ?case by simp
next
  case (Cons e es)
  from Cons.prems(2) have t: "tail e < length (subsets u)" and h: "head e < length (subsets u)"
    and eok: "edges_ok (length (subsets u)) es" by (simp_all add: edges_ok_def)
  from connected_uf_Some[OF Cons.prems(1) t h] obtain u1 where
    c: "connected_uf u (tail e) (head e) = Some (\<not> crossing u e, u1)"
    and u1: "uf_inv u1" "length (subsets u1) = length (subsets u)" "nb_subsets u1 = nb_subsets u"
      "\<forall>z. find_root (subsets u1) z = find_root (subsets u) z"
    by (auto simp: crossing_def)
  have eok1: "edges_ok (length (subsets u1)) es" using eok u1(2) by simp
  from Cons.IH[OF u1(1) eok1] obtain u2 where
    r: "count_if_not_connected u1 es = Some (length (filter (crossing u1) es), u2)"
    and u2: "uf_inv u2" "length (subsets u2) = length (subsets u1)" "nb_subsets u2 = nb_subsets u1"
      "\<forall>z. find_root (subsets u2) z = find_root (subsets u1) z" by blast
  have cr: "crossing u1 = crossing u" using u1(4) by (intro crossing_cong) simp
  have "count_if_not_connected u (e # es) = Some (length (filter (crossing u) (e # es)), u2)"
    using c r cr by simp
  moreover have "length (subsets u2) = length (subsets u)" using u1(2) u2(2) by simp
  moreover have "nb_subsets u2 = nb_subsets u" using u1(3) u2(3) by simp
  moreover have "\<forall>z. find_root (subsets u2) z = find_root (subsets u) z" using u1(4) u2(4) by simp
  ultimately show ?case using u2(1) by (intro exI[of _ u2] conjI)
qed

lemma copy_if_not_connected_Some:
  "uf_inv u \<Longrightarrow> edges_ok (length (subsets u)) es \<Longrightarrow>
   \<exists>u'. copy_if_not_connected u es = Some (filter (crossing u) es, u')
     \<and> uf_inv u' \<and> length (subsets u') = length (subsets u) \<and> nb_subsets u' = nb_subsets u
     \<and> (\<forall>z. find_root (subsets u') z = find_root (subsets u) z)"
proof (induction es arbitrary: u)
  case Nil
  then show ?case by simp
next
  case (Cons e es)
  from Cons.prems(2) have t: "tail e < length (subsets u)" and h: "head e < length (subsets u)"
    and eok: "edges_ok (length (subsets u)) es" by (simp_all add: edges_ok_def)
  from connected_uf_Some[OF Cons.prems(1) t h] obtain u1 where
    c: "connected_uf u (tail e) (head e) = Some (\<not> crossing u e, u1)"
    and u1: "uf_inv u1" "length (subsets u1) = length (subsets u)" "nb_subsets u1 = nb_subsets u"
      "\<forall>z. find_root (subsets u1) z = find_root (subsets u) z"
    by (auto simp: crossing_def)
  have eok1: "edges_ok (length (subsets u1)) es" using eok u1(2) by simp
  from Cons.IH[OF u1(1) eok1] obtain u2 where
    r: "copy_if_not_connected u1 es = Some (filter (crossing u1) es, u2)"
    and u2: "uf_inv u2" "length (subsets u2) = length (subsets u1)" "nb_subsets u2 = nb_subsets u1"
      "\<forall>z. find_root (subsets u2) z = find_root (subsets u1) z" by blast
  have cr: "crossing u1 = crossing u" using u1(4) by (intro crossing_cong) simp
  have "copy_if_not_connected u (e # es) = Some (filter (crossing u) (e # es), u2)"
    using c r cr by simp
  moreover have "length (subsets u2) = length (subsets u)" using u1(2) u2(2) by simp
  moreover have "nb_subsets u2 = nb_subsets u" using u1(3) u2(3) by simp
  moreover have "\<forall>z. find_root (subsets u2) z = find_root (subsets u) z" using u1(4) u2(4) by simp
  ultimately show ?case using u2(1) by (intro exI[of _ u2] conjI)
qed

subsection \<open>Connected graphs\<close>

lemma connected_over_init:
  "connected_graph G \<Longrightarrow> connected_over (UnionFind_init (n_vertices G)) (edges G)"
  unfolding connected_graph_def connected_over_def
proof (intro allI impI)
  fix x y
  assume c: "\<forall>x<n_vertices G. \<forall>y<n_vertices G. (x, y) \<in> (edge_rel (edges G))\<^sup>*"
    and "x < length (subsets (UnionFind_init (n_vertices G)))"
    and "y < length (subsets (UnionFind_init (n_vertices G)))"
  then have "(x, y) \<in> (edge_rel (edges G))\<^sup>*" by (simp add: UnionFind_init_def)
  then show "(x, y) \<in> (uf_rel (UnionFind_init (n_vertices G)) \<union> edge_rel (edges G))\<^sup>*"
    by (meson rtrancl_mono subsetD sup_ge2)
qed

lemma edge_rel_sym: "(x, y) \<in> (edge_rel es)\<^sup>* \<Longrightarrow> (y, x) \<in> (edge_rel es)\<^sup>*"
proof -
  have "(edge_rel es)\<inverse> = edge_rel es" by (auto simp: edge_rel_def)
  then show "(x, y) \<in> (edge_rel es)\<^sup>* \<Longrightarrow> (y, x) \<in> (edge_rel es)\<^sup>*"
    by (metis rtrancl_converseD converse_iff)
qed

lemma connected_graphI:
  assumes "\<And>x. x < n_vertices G \<Longrightarrow> (x, 0) \<in> (edge_rel (edges G))\<^sup>*"
  shows "connected_graph G"
  unfolding connected_graph_def
proof (intro allI impI)
  fix x y assume "x < n_vertices G" "y < n_vertices G"
  then have "(x, 0) \<in> (edge_rel (edges G))\<^sup>*" "(0, y) \<in> (edge_rel (edges G))\<^sup>*"
    using assms edge_rel_sym by blast+
  then show "(x, y) \<in> (edge_rel (edges G))\<^sup>*" by (rule rtrancl_trans)
qed

lemma edge_relI1: "e \<in> set es \<Longrightarrow> (tail e, head e) \<in> edge_rel es"
  by (auto simp: edge_rel_def)

lemma edge_relI2: "e \<in> set es \<Longrightarrow> (head e, tail e) \<in> edge_rel es"
  by (auto simp: edge_rel_def)

subsection \<open>Karger's algorithm returns a cut\<close>

lemma filter_consumed:
  assumes "\<And>i. i < s \<Longrightarrow> \<not> P (xs ! i)" "s \<le> length xs"
  shows "filter P xs = filter P (drop s xs)"
proof -
  have "filter P (take s xs) = []"
    unfolding filter_empty_conv
  proof
    fix x assume "x \<in> set (take s xs)"
    then obtain i where "i < length (take s xs)" "take s xs ! i = x" by (auto simp: in_set_conv_nth)
    then show "\<not> P x" using assms by auto
  qed
  then have "filter P (take s xs @ drop s xs) = filter P (drop s xs)" by (simp only: filter_append) simp
  then show ?thesis by simp
qed

lemma not_crossing_uf_rel: "(tail e, head e) \<in> uf_rel u \<Longrightarrow> \<not> crossing u e"
  by (simp add: uf_rel_def crossing_def)

lemma length_filter_mset:
  "mset xs = mset ys \<Longrightarrow> length (filter P xs) = length (filter P ys)"
proof -
  assume "mset xs = mset ys"
  then have "mset (filter P xs) = mset (filter P ys)" by simp
  then show ?thesis by (rule mset_eq_length)
qed

lemma karger_union_find_cut:
  assumes rng: "distribution_ok draw" and conn: "connected_graph G"
    and eok: "edges_ok (n_vertices G) (edges G)" and n: "2 \<le> n_vertices G"
    and len: "length (edges G) \<le> 2147483648"
  shows "\<exists>g' c G'. karger_union_find draw g G = Some (g', c, G')
     \<and> uf_inv (cut_uf c) \<and> nb_subsets (cut_uf c) = 2
     \<and> length (subsets (cut_uf c)) = n_vertices G
     \<and> cut_size c = length (filter (crossing (cut_uf c)) (edges G))
     \<and> cut_size c \<le> length (edges G)"
proof -
  let ?u0 = "UnionFind_init (n_vertices G)"
  have l0: "length (subsets ?u0) = n_vertices G" by (simp add: UnionFind_init_def)
  have nb0: "nb_subsets ?u0 = n_vertices G" by (simp add: UnionFind_init_def)
  have eok0: "edges_ok (length (subsets ?u0)) (edges G)" using eok l0 by simp
  have conn0: "connected_over ?u0 (edges G)" using connected_over_init[OF conn] by simp
  have k: "(1::nat) \<le> 2" by simp
  have k2: "2 \<le> nb_subsets ?u0" using n nb0 by simp
  from contraction_total[OF rng k uf_inv_init eok0 conn0 k2 len, of g]
  obtain g' u1 es' start' where
    loop: "contraction draw 2 g ?u0 (edges G) = Some (g', u1, es', start')"
    and post: "loop_post 2 ?u0 (edges G) 0 u1 es' start'" by auto
  from post have P: "nb_subsets u1 = 2" "uf_inv u1" "length (subsets u1) = n_vertices G"
    "start' \<le> length (edges G)"
    "\<forall>i. 0 \<le> i \<and> i < start' \<longrightarrow> (tail (es' ! i), head (es' ! i)) \<in> uf_rel u1"
    unfolding loop_post_def using l0 by simp_all
  from contraction_perm[OF loop] have ms: "mset es' = mset (edges G)" .
  then have le: "length es' = length (edges G)" by (rule mset_eq_length)
  have eok1: "edges_ok (length (subsets u1)) (drop start' es')"
    using eok mset_eq_setD[OF ms] P(3) by (auto simp: edges_ok_def dest: in_set_dropD)
  from count_if_not_connected_Some[OF P(2) eok1] obtain u2 where
    cnt: "count_if_not_connected u1 (drop start' es') = Some (length (filter (crossing u1) (drop start' es')), u2)"
    and u2: "uf_inv u2" "length (subsets u2) = length (subsets u1)" "nb_subsets u2 = nb_subsets u1"
      "\<forall>z. find_root (subsets u2) z = find_root (subsets u1) z" by blast
  let ?c = "\<lparr>cut_size = length (filter (crossing u1) (drop start' es')), cut_uf = u2\<rparr>"
  have ret: "karger_union_find draw g G = Some (g', ?c, G\<lparr>edges := es'\<rparr>)"
    using loop cnt by (simp add: karger_union_find_def)
  have cr: "crossing u2 = crossing u1" using u2(4) by (intro crossing_cong) simp
  have "filter (crossing u1) es' = filter (crossing u1) (drop start' es')"
  proof (rule filter_consumed)
    show "start' \<le> length es'" using P(4) le by simp
    fix i assume "i < start'"
    then show "\<not> crossing u1 (es' ! i)" using P(5) not_crossing_uf_rel by simp
  qed
  then have "length (filter (crossing u1) (drop start' es')) = length (filter (crossing u1) (edges G))"
    using length_filter_mset[OF ms, of "crossing u1"] by simp
  then have cs: "cut_size ?c = length (filter (crossing (cut_uf ?c)) (edges G))" using cr by simp
  have "uf_inv (cut_uf ?c) \<and> nb_subsets (cut_uf ?c) = 2
     \<and> length (subsets (cut_uf ?c)) = n_vertices G"
    using u2 P by simp
  moreover have "cut_size ?c \<le> length (edges G)" unfolding cs by (rule length_filter_le)
  ultimately have "karger_union_find draw g G = Some (g', ?c, G\<lparr>edges := es'\<rparr>)
     \<and> uf_inv (cut_uf ?c) \<and> nb_subsets (cut_uf ?c) = 2
     \<and> length (subsets (cut_uf ?c)) = n_vertices G
     \<and> cut_size ?c = length (filter (crossing (cut_uf ?c)) (edges G))
     \<and> cut_size ?c \<le> length (edges G)"
    using ret cs by (intro conjI) simp_all
  then show ?thesis by (intro exI)
qed

lemma karger_union_find_frame:
  assumes "karger_union_find draw g G = Some (g', c, G')"
  shows "n_vertices G' = n_vertices G \<and> mset (edges G') = mset (edges G)"
proof -
  from assms obtain u es start where
    loop: "contraction draw 2 g (UnionFind_init (n_vertices G)) (edges G) = Some (g', u, es, start)"
    and G': "G' = G\<lparr>edges := es\<rparr>"
    by (auto simp: karger_union_find_def split: option.splits prod.splits)
  from contraction_perm[OF loop] G' show ?thesis by simp
qed

subsection \<open>The number of vertices after a contraction, and \<open>1 + ceil(n / sqrt 2)\<close>\<close>

text \<open>
  The two constants. \<open>std::sqrt(2)\<close> is the double nearest to the square root of \<open>2\<close>,
  \<open>S / 2\<^sup>5\<^sup>2\<close> with \<open>S = 6369051672525773\<close>: \<open>(2 S - 1)\<^sup>2 < 2 * 2\<^sup>1\<^sup>0\<^sup>6 < (2 S + 1)\<^sup>2\<close>. Its inverse
  is \<open>(2\<^sup>1\<^sup>0\<^sup>5 / S) / 2\<^sup>5\<^sup>3\<close>, and the double nearest to it is \<open>M / 2\<^sup>5\<^sup>3\<close> with
  \<open>M = 6369051672525772\<close>, the natural number nearest to \<open>2\<^sup>1\<^sup>0\<^sup>5 / S\<close>, of 53 bits.
\<close>

lemma INV_SQRT_2_double:
  "(2 * 6369051672525773 - 1)\<^sup>2 < 2 * (2::nat) ^ 106
   \<and> 2 * (2::nat) ^ 106 < (2 * 6369051672525773 + 1)\<^sup>2
   \<and> 6369051672525772 * 6369051672525773 \<le> (2::nat) ^ 105
   \<and> 2 * ((2::nat) ^ 105 - 6369051672525772 * 6369051672525773) < 6369051672525773
   \<and> (2::nat) ^ 52 \<le> 6369051672525772 \<and> 6369051672525772 < (2::nat) ^ 53"
  by simp

lemma ceiling_div_sqrt2:
  assumes up: "n * n \<le> 2 * (Suc c) * (Suc c)" and low: "2 * c * c < n * n"
  shows "\<lceil>real n / sqrt 2\<rceil> = int (Suc c)"
proof -
  have s2: "0 < sqrt 2" by simp
  have le: "real n / sqrt 2 \<le> real (Suc c)"
  proof -
    have "(real n)\<^sup>2 \<le> (real (Suc c) * sqrt 2)\<^sup>2"
    proof -
      have "real (n * n) \<le> real (2 * (Suc c) * (Suc c))" using up by (rule of_nat_mono)
      then show ?thesis by (simp add: power2_eq_square algebra_simps)
    qed
    then have "real n \<le> real (Suc c) * sqrt 2" by (rule power2_le_imp_le) simp
    then show ?thesis using s2 by (simp add: field_simps)
  qed
  have gt: "real (Suc c) - 1 < real n / sqrt 2"
  proof -
    have "real (2 * c * c) < real (n * n)" using low by (rule of_nat_less_iff[THEN iffD2])
    then have "(real c * sqrt 2)\<^sup>2 < (real n)\<^sup>2" by (simp add: power2_eq_square algebra_simps)
    then have "real c * sqrt 2 < real n" by (rule power2_less_imp_less) simp
    then have "real c < real n / sqrt 2" using s2 by (simp add: field_simps)
    then show ?thesis by simp
  qed
  show ?thesis by (rule ceiling_unique) (use le gt in simp_all)
qed

text \<open>
  Rounding to 53 bits keeps a number of at most 53 bits, never passes a multiple of the
  unit it rounds to, and loses less than one part in \<open>2\<^sup>5\<^sup>3\<close>.
\<close>

lemma shift53_small: "p < 9007199254740992 \<Longrightarrow> shift53 p = 0"
  by (subst shift53.simps) simp

lemma round53_small: "p < 9007199254740992 \<Longrightarrow> round53 p = p"
  by (simp add: round53_def shift53_small)

lemma shift53_le: "p < 9007199254740992 * 2 ^ k \<Longrightarrow> shift53 p \<le> k"
proof (induction k arbitrary: p)
  case 0
  then show ?case by (simp add: shift53_small)
next
  case (Suc k)
  show ?case
  proof (cases "p < 9007199254740992")
    case True
    then show ?thesis by (simp add: shift53_small)
  next
    case False
    then have s: "shift53 p = Suc (shift53 (p div 2))" by (subst shift53.simps) simp
    have "p div 2 < 9007199254740992 * 2 ^ k" using Suc.prems by simp
    from Suc.IH[OF this] show ?thesis unfolding s by simp
  qed
qed

lemma round53_le_multiple:
  assumes le: "p \<le> C" and dv: "2 ^ shift53 p dvd C"
  shows "round53 p \<le> C"
proof -
  define A :: nat where "A = 2 ^ shift53 p"
  define q where "q = p div A"
  define r where "r = p mod A"
  have p: "p = q * A + r" by (simp add: q_def r_def)
  have A: "0 < A" by (simp add: A_def)
  have R: "round53 p = (if A < 2 * r \<or> (2 * r = A \<and> odd q) then (q + 1) * A else q * A)"
    by (simp add: round53_def Let_def A_def q_def r_def)
  show ?thesis
  proof (cases "A < 2 * r \<or> (2 * r = A \<and> odd q)")
    case False
    then have "round53 p = q * A" unfolding R by (simp only: if_False)
    then show ?thesis using p le by simp
  next
    case True
    then have up: "round53 p = (q + 1) * A" unfolding R by (simp only: if_True)
    from True A have r: "0 < r" by auto
    from dv obtain m where C: "C = A * m" unfolding A_def by (auto simp: dvd_def)
    have "q * A + r \<le> m * A" using p le C by (simp add: mult.commute)
    then have "q * A < m * A" using r by linarith
    then have "q < m" by simp
    then have "q + 1 \<le> m" by simp
    then have "(q + 1) * A \<le> m * A" by (rule mult_le_mono1)
    then show ?thesis unfolding up C by (simp add: mult.commute)
  qed
qed

lemma round53_ge: "9007199254740991 * p \<le> 9007199254740992 * round53 p"
proof -
  define s where "s = shift53 p"
  define A :: nat where "A = 2 ^ s"
  define q where "q = p div A"
  define r where "r = p mod A"
  have p: "p = q * A + r" by (simp add: q_def r_def)
  have rA: "r < A" by (simp add: r_def A_def)
  have R: "round53 p = (if A < 2 * r \<or> (2 * r = A \<and> odd q) then (q + 1) * A else q * A)"
    by (simp add: round53_def Let_def s_def A_def q_def r_def)
  show ?thesis
  proof (cases "A < 2 * r \<or> (2 * r = A \<and> odd q)")
    case True
    then have "round53 p = (q + 1) * A" unfolding R by (simp only: if_True)
    then have "p \<le> round53 p" using p rA by simp
    then show ?thesis by simp
  next
    case False
    then have dn: "round53 p = q * A" unfolding R by (simp only: if_False)
    show ?thesis
    proof (cases "s = 0")
      case True
      then have "A = 1" by (simp add: A_def)
      then have "r = 0" using rA by simp
      then show ?thesis unfolding dn using p by simp
    next
      case s: False
      then have "4503599627370496 \<le> q"
        using shift53_bounds[of p] by (simp add: s_def q_def A_def)
      then have qa: "4503599627370496 * A \<le> q * A" by (rule mult_le_mono1)
      from False have Ar: "2 * r \<le> A" by auto
      define X where "X = q * A"
      have h1: "4503599627370496 * A \<le> X" using qa by (simp add: X_def)
      have "4503599627370496 * (2 * r) \<le> 4503599627370496 * A" using Ar by (rule mult_le_mono2)
      then have h2: "9007199254740992 * r \<le> 4503599627370496 * A" by simp
      from h2 h1 have "9007199254740992 * r \<le> X" by (rule le_trans)
      then have "9007199254740991 * r \<le> X" by simp
      then have "9007199254740991 * (X + r) \<le> 9007199254740992 * X"
        by (simp add: algebra_simps)
      then show ?thesis unfolding dn using p by (simp add: X_def)
    qed
  qed
qed

text \<open>
  Below \<open>2\<^sup>5\<^sup>1\<close> vertices the number \<open>t\<close> the code computes is \<open>1 + ceil(n / sqrt 2)\<close> or
  one less.
\<close>

lemma ceiling_div_sqrt2_square:
  "n * n \<le> 2 * nat \<lceil>real n / sqrt 2\<rceil> * nat \<lceil>real n / sqrt 2\<rceil>"
proof -
  define c where "c = nat \<lceil>real n / sqrt 2\<rceil>"
  have "0 \<le> real n / sqrt 2" by simp
  then have "0 \<le> \<lceil>real n / sqrt 2\<rceil>" by linarith
  then have "real c = of_int \<lceil>real n / sqrt 2\<rceil>" by (simp add: c_def)
  then have "real n / sqrt 2 \<le> real c" by linarith
  then have "real n \<le> real c * sqrt 2" by (simp add: field_simps)
  then have "(real n)\<^sup>2 \<le> (real c * sqrt 2)\<^sup>2" by (rule power_mono) simp
  then have "real (n * n) \<le> real (2 * c * c)" by (simp add: power2_eq_square algebra_simps)
  then have "n * n \<le> 2 * c * c" by (simp only: of_nat_le_iff)
  then show ?thesis by (simp add: c_def)
qed

lemma ceiling_div_sqrt2_le: "\<lceil>real n / sqrt 2\<rceil> \<le> int n"
proof -
  have "1 \<le> sqrt 2" by simp
  then have "real n * 1 \<le> real n * sqrt 2" by (intro mult_left_mono) simp_all
  then have "real n / sqrt 2 \<le> real n" by (simp add: field_simps)
  then have "\<lceil>real n / sqrt 2\<rceil> \<le> \<lceil>real n\<rceil>" by (rule ceiling_mono)
  then show ?thesis by simp
qed

lemma ceil_mul_INV_SQRT_2_le:
  assumes n: "n < 9007199254740992"
  shows "int (ceil_mul_INV_SQRT_2 n) \<le> \<lceil>real n / sqrt 2\<rceil>"
proof -
  define c where "c = nat \<lceil>real n / sqrt 2\<rceil>"
  have "0 \<le> real n / sqrt 2" by simp
  then have c0: "0 \<le> \<lceil>real n / sqrt 2\<rceil>" by linarith
  have sq: "n * n \<le> 2 * c * c" unfolding c_def by (rule ceiling_div_sqrt2_square)
  define p where "p = n * 6369051672525772"
  have "p * p = (n * n) * (6369051672525772 * 6369051672525772)" by (simp add: p_def)
  also have "\<dots> \<le> (2 * c * c) * (6369051672525772 * 6369051672525772)"
    using sq by (rule mult_le_mono1)
  also have "\<dots> = (c * c) * 81129638414606667311316008391968" by simp
  also have "\<dots> \<le> (c * c) * 81129638414606681695789005144064" by (rule mult_le_mono2) simp
  also have "\<dots> = (c * 9007199254740992) * (c * 9007199254740992)" by simp
  finally have "p\<^sup>2 \<le> (c * 9007199254740992)\<^sup>2" by (simp add: power2_eq_square)
  then have le: "p \<le> c * 9007199254740992" by (rule power2_le_imp_le) simp
  have "p < 9007199254740992 * 2 ^ 53" using n by (simp add: p_def)
  then have "shift53 p \<le> 53" by (rule shift53_le)
  then have "(2::nat) ^ shift53 p dvd 2 ^ 53" by (rule le_imp_power_dvd)
  then have "(2::nat) ^ shift53 p dvd c * 9007199254740992" by simp
  with le have "round53 p \<le> c * 9007199254740992" by (rule round53_le_multiple)
  then have "(round53 p + 9007199254740991) div 9007199254740992
      \<le> (c * 9007199254740992 + 9007199254740991) div 9007199254740992"
    by (intro div_le_mono) simp
  also have "\<dots> = c" by simp
  finally have "ceil_mul_INV_SQRT_2 n \<le> c"
    using n by (simp add: ceil_mul_INV_SQRT_2_def round53_small p_def)
  then have "int (ceil_mul_INV_SQRT_2 n) \<le> int c" by simp
  also have "int c = \<lceil>real n / sqrt 2\<rceil>" unfolding c_def using c0 by (rule nat_0_le)
  finally show ?thesis .
qed

lemma ceil_mul_INV_SQRT_2_ge:
  assumes n: "n < 2251799813685248"
  shows "\<lceil>real n / sqrt 2\<rceil> - 1 \<le> int (ceil_mul_INV_SQRT_2 n)"
proof (cases "\<lceil>real n / sqrt 2\<rceil> \<le> 1")
  case True
  have "0 \<le> int (ceil_mul_INV_SQRT_2 n)" by simp
  with True show ?thesis by linarith
next
  case False
  define e where "e = nat (\<lceil>real n / sqrt 2\<rceil> - 2)"
  have ce: "\<lceil>real n / sqrt 2\<rceil> = int e + 2" using False by (simp add: e_def)
  have en: "e + 2 \<le> n" using ceiling_div_sqrt2_le[of n] ce by simp
  have "real_of_int \<lceil>real n / sqrt 2\<rceil> - 1 < real n / sqrt 2" by linarith
  then have "real (e + 1) < real n / sqrt 2" unfolding ce by simp
  then have "real (e + 1) * sqrt 2 < real n" by (simp add: field_simps)
  then have "(real (e + 1) * sqrt 2)\<^sup>2 < (real n)\<^sup>2" by (rule power_strict_mono) simp_all
  then have "real (2 * (e + 1) * (e + 1)) < real (n * n)"
    by (simp add: power2_eq_square algebra_simps)
  then have low: "2 * (e + 1) * (e + 1) < n * n" by (simp only: of_nat_less_iff)
  define p where "p = n * 6369051672525772"
  have e51: "e + 1 \<le> 2251799813685248" using en n by simp
  have "2251799813685248 * e \<le> 2251799813685247 * (e + 1)" using e51 by simp
  then have "(2251799813685248 * e)\<^sup>2 \<le> (2251799813685247 * (e + 1))\<^sup>2" by (rule power_mono) simp
  then have 1: "(2251799813685248 * e)\<^sup>2 * 2 ^ 110 \<le> (2251799813685247 * (e + 1))\<^sup>2 * 2 ^ 110"
    by (rule mult_le_mono1)
  have "(2251799813685247::nat)\<^sup>2 * 2 ^ 110
      \<le> 9007199254740991\<^sup>2 * (2 * 6369051672525772\<^sup>2)" by simp
  then have "(e + 1)\<^sup>2 * ((2251799813685247::nat)\<^sup>2 * 2 ^ 110)
      \<le> (e + 1)\<^sup>2 * (9007199254740991\<^sup>2 * (2 * 6369051672525772\<^sup>2))" by (rule mult_le_mono2)
  then have 2: "(2251799813685247 * (e + 1))\<^sup>2 * 2 ^ 110
      \<le> (2 * (e + 1) * (e + 1)) * (9007199254740991 * 6369051672525772)\<^sup>2"
    by (simp add: power2_eq_square algebra_simps)
  have 3: "(2 * (e + 1) * (e + 1)) * (9007199254740991 * 6369051672525772)\<^sup>2
      < (n * n) * (9007199254740991 * 6369051672525772)\<^sup>2"
    using low by (rule mult_less_mono1) simp
  have "(e * 2 ^ 106)\<^sup>2 = (2251799813685248 * e)\<^sup>2 * 2 ^ 110"
    by (simp add: power2_eq_square)
  also note 1
  also note 2
  also note 3
  also have "(n * n) * (9007199254740991 * 6369051672525772)\<^sup>2 = (9007199254740991 * p)\<^sup>2"
    by (simp add: p_def power2_eq_square)
  finally have "(e * 2 ^ 106)\<^sup>2 < (9007199254740991 * p)\<^sup>2" .
  then have "e * 2 ^ 106 < 9007199254740991 * p" by (rule power2_less_imp_less) simp
  also have "\<dots> \<le> 9007199254740992 * round53 p" by (rule round53_ge)
  finally have "9007199254740992 * (e * 9007199254740992) < 9007199254740992 * round53 p" by simp
  then have "e * 9007199254740992 < round53 p" by simp
  then have "(e + 1) * 9007199254740992 \<le> round53 p + 9007199254740991" by simp
  then have "(e + 1) * 9007199254740992 div 9007199254740992
      \<le> (round53 p + 9007199254740991) div 9007199254740992" by (rule div_le_mono)
  then have "e + 1 \<le> (round53 p + 9007199254740991) div 9007199254740992" by simp
  moreover have "round53 n = n" using n by (intro round53_small) simp
  ultimately have "e + 1 \<le> ceil_mul_INV_SQRT_2 n"
    by (simp add: ceil_mul_INV_SQRT_2_def p_def)
  then show ?thesis unfolding ce by simp
qed

lemma t_of_real:
  assumes n: "n < 2251799813685248"
  shows "\<lceil>real n / sqrt 2\<rceil> \<le> int (t_of n) \<and> int (t_of n) \<le> 1 + \<lceil>real n / sqrt 2\<rceil>"
proof -
  have n53: "n < 9007199254740992" using n by simp
  have up: "int (ceil_mul_INV_SQRT_2 n) \<le> \<lceil>real n / sqrt 2\<rceil>"
    using n53 by (rule ceil_mul_INV_SQRT_2_le)
  have lo: "\<lceil>real n / sqrt 2\<rceil> - 1 \<le> int (ceil_mul_INV_SQRT_2 n)"
    using n by (rule ceil_mul_INV_SQRT_2_ge)
  have "int (ceil_mul_INV_SQRT_2 n) \<le> int n" using up ceiling_div_sqrt2_le[of n] by simp
  then have "1 + ceil_mul_INV_SQRT_2 n < 9007199254740992" using n by simp
  then have "t_of n = 1 + ceil_mul_INV_SQRT_2 n" unfolding t_of_def by (rule round53_small)
  then show ?thesis using up lo by simp
qed

subsection \<open>One contraction of a graph of the stack\<close>

text \<open>
  What holds of every graph on the stack: its structure is well formed and has as many
  subsets as the graph has vertices, at least two; its edges, at most \<open>2\<^sup>3\<^sup>1\<close>, join
  elements of the structure; and it is connected.
\<close>

definition task_ok :: "ContractedGraph \<Rightarrow> bool" where
  "task_ok c =
     (uf_inv (uf c) \<and> edges_ok (length (subsets (uf c))) (edges c)
      \<and> connected_over (uf c) (edges c) \<and> nb_subsets (uf c) = n_vertices c \<and> 2 \<le> n_vertices c
      \<and> length (edges c) \<le> 2147483648)"

text \<open>
  \<open>child_of graph k es start child\<close>: \<open>child\<close> is what \<open>contract(graph, k)\<close> returns when it
  leaves the edges of \<open>graph\<close> as \<open>es\<close> with the cursor at \<open>start\<close>: a graph of \<open>k\<close> vertices
  whose structure is well formed, has \<open>k\<close> subsets, and is the structure of \<open>graph\<close> with
  the endpoints of the edges before the cursor merged and nothing else; \<open>es\<close> is a
  permutation of the edges of \<open>graph\<close>; and the edges of \<open>child\<close> are the edges from the
  cursor on that cross its partition, in their order.
\<close>

definition child_of :: "ContractedGraph \<Rightarrow> nat \<Rightarrow> Edge list \<Rightarrow> nat \<Rightarrow> ContractedGraph \<Rightarrow> bool" where
  "child_of graph k es start child =
     (n_vertices child = k \<and> nb_subsets (uf child) = k \<and> uf_inv (uf child)
      \<and> length (subsets (uf child)) = length (subsets (uf graph))
      \<and> uf_rel (uf graph) \<subseteq> uf_rel (uf child)
      \<and> uf_rel (uf child) \<subseteq> (uf_rel (uf graph) \<union> edge_rel (take start es))\<^sup>*
      \<and> mset es = mset (edges graph) \<and> start \<le> length es
      \<and> (\<forall>i < start. \<not> crossing (uf child) (es ! i))
      \<and> edges child = filter (crossing (uf child)) (drop start es))"

lemma edge_rel_filter_crossing:
  assumes "edges_ok (length (subsets u)) es"
  shows "edge_rel es \<subseteq> uf_rel u \<union> edge_rel (filter (crossing u) es)"
proof
  fix ab assume "ab \<in> edge_rel es"
  then obtain e where e: "e \<in> set es" and ab: "ab = (tail e, head e) \<or> ab = (head e, tail e)"
    by (auto simp: edge_rel_def)
  from e assms have l: "tail e < length (subsets u)" "head e < length (subsets u)"
    by (simp_all add: edges_ok_def)
  show "ab \<in> uf_rel u \<union> edge_rel (filter (crossing u) es)"
  proof (cases "crossing u e")
    case True
    then have "e \<in> set (filter (crossing u) es)" using e by simp
    then show ?thesis using ab edge_relI1 edge_relI2 by blast
  next
    case False
    then have "(tail e, head e) \<in> uf_rel u" using l by (simp add: uf_rel_def crossing_def)
    then show ?thesis using ab uf_rel_sym by blast
  qed
qed

lemma contract_total:
  assumes rng: "distribution_ok draw" and ok: "task_ok graph"
    and k: "2 \<le> k" "k \<le> n_vertices graph"
  shows "\<exists>g' es start child.
      contract draw g graph k = Some (g', graph\<lparr>edges := es\<rparr>, child)
      \<and> task_ok (graph\<lparr>edges := es\<rparr>) \<and> task_ok child \<and> child_of graph k es start child"
proof -
  from ok have inv: "uf_inv (uf graph)" and eok: "edges_ok (length (subsets (uf graph))) (edges graph)"
    and conn: "connected_over (uf graph) (edges graph)" and nb: "nb_subsets (uf graph) = n_vertices graph"
    and n2: "2 \<le> n_vertices graph" and bound: "length (edges graph) \<le> 2147483648"
    by (simp_all add: task_ok_def)
  have k1: "1 \<le> k" using k by simp
  have knb: "k \<le> nb_subsets (uf graph)" using k nb by simp
  from contraction_total[OF rng k1 inv eok conn knb bound, of g]
  obtain g' u1 es start where
    loop: "contraction draw k g (uf graph) (edges graph) = Some (g', u1, es, start)"
    and post: "loop_post k (uf graph) (edges graph) 0 u1 es start" by auto
  from post have P: "nb_subsets u1 = k" "uf_inv u1" "length (subsets u1) = length (subsets (uf graph))"
    "start \<le> length (edges graph)" "connected_over u1 (drop start es)"
    "uf_rel (uf graph) \<subseteq> uf_rel u1"
    "\<forall>i. 0 \<le> i \<and> i < start \<longrightarrow> (tail (es ! i), head (es ! i)) \<in> uf_rel u1"
    "uf_rel u1 \<subseteq> (uf_rel (uf graph) \<union> edge_rel (take start es))\<^sup>*"
    unfolding loop_post_def by simp_all
  from contraction_perm[OF loop] have ms: "mset es = mset (edges graph)" .
  then have le: "length es = length (edges graph)" by (rule mset_eq_length)
  have eoks: "edges_ok (length (subsets (uf graph))) es"
    using eok mset_eq_setD[OF ms] by (simp add: edges_ok_def)
  have eok1: "edges_ok (length (subsets u1)) (drop start es)"
    using eoks P(3) by (auto simp: edges_ok_def dest: in_set_dropD)
  from copy_if_not_connected_Some[OF P(2) eok1] obtain u2 where
    cp: "copy_if_not_connected u1 (drop start es) = Some (filter (crossing u1) (drop start es), u2)"
    and u2: "uf_inv u2" "length (subsets u2) = length (subsets u1)" "nb_subsets u2 = nb_subsets u1"
      "\<forall>z. find_root (subsets u2) z = find_root (subsets u1) z" by blast
  have cr: "crossing u2 = crossing u1" using u2(4) by (intro crossing_cong) simp
  have rel: "uf_rel u2 = uf_rel u1" using u2(2,4) by (intro uf_rel_cong) simp_all
  let ?child = "\<lparr>n_vertices = k, edges = filter (crossing u1) (drop start es), uf = u2\<rparr>"
  let ?graph = "graph\<lparr>edges := es\<rparr>"
  have ret: "contract draw g graph k = Some (g', ?graph, ?child)"
    using loop cp by (simp add: contract_def)
  have ok1: "task_ok ?graph"
  proof -
    have "connected_over (uf graph) es"
      using conn edge_rel_mset[OF ms] by (simp add: connected_over_def)
    then show ?thesis using inv eoks nb n2 bound le by (simp add: task_ok_def)
  qed
  have ok2: "task_ok ?child"
  proof -
    have "connected_over u2 (filter (crossing u1) (drop start es))"
    proof (rule connected_over_mono[OF P(5)])
      show "length (subsets u2) = length (subsets u1)" by (rule u2(2))
      have "uf_rel u1 \<union> edge_rel (drop start es)
          \<subseteq> uf_rel u2 \<union> edge_rel (filter (crossing u1) (drop start es))"
        using edge_rel_filter_crossing[OF eok1] rel by auto
      then show "uf_rel u1 \<union> edge_rel (drop start es)
          \<subseteq> (uf_rel u2 \<union> edge_rel (filter (crossing u1) (drop start es)))\<^sup>*" by auto
    qed
    moreover have "edges_ok (length (subsets u2)) (filter (crossing u1) (drop start es))"
      using eok1 u2(2) by (simp add: edges_ok_def)
    moreover have "length (filter (crossing u1) (drop start es)) \<le> 2147483648"
    proof -
      have "length (filter (crossing u1) (drop start es)) \<le> length (drop start es)"
        by (rule length_filter_le)
      also have "\<dots> \<le> length es" by simp
      finally show ?thesis using le bound by simp
    qed
    ultimately show ?thesis using u2(1,3) P(1) k by (simp add: task_ok_def)
  qed
  have ch: "child_of graph k es start ?child"
  proof -
    have "\<forall>i < start. \<not> crossing u2 (es ! i)"
      using P(7) not_crossing_uf_rel cr by simp
    moreover have "uf_rel (uf graph) \<subseteq> uf_rel u2" using P(6) rel by simp
    moreover have "uf_rel u2 \<subseteq> (uf_rel (uf graph) \<union> edge_rel (take start es))\<^sup>*"
      using P(8) rel by simp
    moreover have "start \<le> length es" using P(4) le by simp
    ultimately show ?thesis
      using u2(1,2,3) P(1,3) ms cr by (simp add: child_of_def)
  qed
  from ret ok1 ok2 ch show ?thesis by blast
qed

subsection \<open>The main loop\<close>

lemma karger_stein_step_frame:
  "karger_stein_step draw s = Some s' \<Longrightarrow> input_graph s' = input_graph s"
  by (auto simp: karger_stein_step_def split: list.splits if_splits option.splits)

lemma karger_stein_loop_frame:
  "karger_stein_loop draw s = Some s' \<Longrightarrow> input_graph s' = input_graph s"
proof (induction draw s rule: karger_stein_loop.induct)
  case (1 draw s)
  show ?case
  proof (cases "graphs s = []")
    case True
    then show ?thesis using "1.prems" by (subst (asm) karger_stein_loop.simps) simp
  next
    case False
    from "1.prems" False obtain s1 where
      st: "karger_stein_step draw s = Some s1" and r: "karger_stein_loop draw s1 = Some s'"
      by (subst (asm) karger_stein_loop.simps) (auto split: option.splits)
    from "1.IH"[OF False st r] karger_stein_step_frame[OF st] show ?thesis by simp
  qed
qed

text \<open>The two transitions of the loop body.\<close>

lemma karger_stein_step_leaf:
  assumes "graphs s = graph # rest" "n_vertices graph \<le> 6"
    "contract draw (mt s) graph 2 = Some (g', graph', child)"
  shows "karger_stein_step draw s
     = Some (s\<lparr>best_minimum_cut := min_cut (best_minimum_cut s) (cut child),
               graphs := rest, mt := g'\<rparr>)"
  using assms by (simp add: karger_stein_step_def)

lemma karger_stein_step_internal:
  assumes "graphs s = graph # rest" "6 < n_vertices graph"
    "contract draw (mt s) graph (t_of (n_vertices graph)) = Some (g1, graph1, child1)"
    "contract draw g1 graph1 (t_of (n_vertices graph)) = Some (g2, graph2, child2)"
  shows "karger_stein_step draw s = Some (s\<lparr>graphs := child2 # child1 # rest, mt := g2\<rparr>)"
  using assms by (simp add: karger_stein_step_def)

lemma karger_stein_children:
  assumes rng: "distribution_ok draw" and gs: "graphs s = graph # rest"
    and n: "6 < n_vertices graph" and ok: "task_ok graph"
  shows "\<exists>g1 es1 start1 child1 g2 es2 start2 child2.
       contract draw (mt s) graph (t_of (n_vertices graph))
         = Some (g1, graph\<lparr>edges := es1\<rparr>, child1)
     \<and> contract draw g1 (graph\<lparr>edges := es1\<rparr>) (t_of (n_vertices graph))
         = Some (g2, graph\<lparr>edges := es2\<rparr>, child2)
     \<and> karger_stein_step draw s = Some (s\<lparr>graphs := child2 # child1 # rest, mt := g2\<rparr>)
     \<and> child_of graph (t_of (n_vertices graph)) es1 start1 child1
     \<and> child_of (graph\<lparr>edges := es1\<rparr>) (t_of (n_vertices graph)) es2 start2 child2
     \<and> task_ok child1 \<and> task_ok child2"
proof -
  let ?t = "t_of (n_vertices graph)"
  have t2: "2 \<le> ?t" using t_of_ge2[of "n_vertices graph"] n by simp
  have tn: "?t \<le> n_vertices graph" using t_of_less[OF n] by simp
  from contract_total[OF rng ok t2 tn, of "mt s"] obtain g1 es1 start1 child1 where
    c1: "contract draw (mt s) graph ?t = Some (g1, graph\<lparr>edges := es1\<rparr>, child1)"
    and ok1: "task_ok (graph\<lparr>edges := es1\<rparr>)" and okc1: "task_ok child1"
    and ch1: "child_of graph ?t es1 start1 child1"
    by blast
  have tn1: "?t \<le> n_vertices (graph\<lparr>edges := es1\<rparr>)" using tn by simp
  from contract_total[OF rng ok1 t2 tn1, of g1] obtain g2 es2 start2 child2 where
    c2': "contract draw g1 (graph\<lparr>edges := es1\<rparr>) ?t
          = Some (g2, graph\<lparr>edges := es1\<rparr>\<lparr>edges := es2\<rparr>, child2)"
    and okc2: "task_ok child2"
    and ch2: "child_of (graph\<lparr>edges := es1\<rparr>) ?t es2 start2 child2" by blast
  from c2' have c2: "contract draw g1 (graph\<lparr>edges := es1\<rparr>) ?t = Some (g2, graph\<lparr>edges := es2\<rparr>, child2)"
    by simp
  have st: "karger_stein_step draw s = Some (s\<lparr>graphs := child2 # child1 # rest, mt := g2\<rparr>)"
    using gs n c1 c2 by (rule karger_stein_step_internal)
  have "contract draw (mt s) graph ?t = Some (g1, graph\<lparr>edges := es1\<rparr>, child1)
     \<and> contract draw g1 (graph\<lparr>edges := es1\<rparr>) ?t = Some (g2, graph\<lparr>edges := es2\<rparr>, child2)
     \<and> karger_stein_step draw s = Some (s\<lparr>graphs := child2 # child1 # rest, mt := g2\<rparr>)
     \<and> child_of graph ?t es1 start1 child1
     \<and> child_of (graph\<lparr>edges := es1\<rparr>) ?t es2 start2 child2
     \<and> task_ok child1 \<and> task_ok child2"
    by (intro conjI) (rule c1 c2 st ch1 ch2 okc1 okc2)+
  then show ?thesis by (intro exI)
qed

lemma karger_stein_step_total:
  assumes rng: "distribution_ok draw" and ne: "graphs s \<noteq> []"
    and ok: "\<forall>c \<in> set (graphs s). task_ok c"
  shows "\<exists>s'. karger_stein_step draw s = Some s' \<and> (\<forall>c \<in> set (graphs s'). task_ok c)"
proof -
  from ne obtain graph rest where Cons: "graphs s = graph # rest" by (cases "graphs s") auto
  have okg: "task_ok graph" and okr: "\<forall>c \<in> set rest. task_ok c" using ok Cons by simp_all
  then have n2: "2 \<le> n_vertices graph" by (simp add: task_ok_def)
  show ?thesis
  proof (cases "n_vertices graph \<le> 6")
    case True
    have k: "(2::nat) \<le> 2" by simp
    from contract_total[OF rng okg k n2, of "mt s"] obtain g' es start child where
      c: "contract draw (mt s) graph 2 = Some (g', graph\<lparr>edges := es\<rparr>, child)" by blast
    from karger_stein_step_leaf[OF Cons True c] okr show ?thesis by simp
  next
    case False
    then have n: "6 < n_vertices graph" by simp
    from karger_stein_children[OF rng Cons n okg] obtain g2 child1 child2 where
      "karger_stein_step draw s = Some (s\<lparr>graphs := child2 # child1 # rest, mt := g2\<rparr>)"
      "task_ok child1" "task_ok child2" by blast
    then show ?thesis using okr by simp
  qed
qed

lemma karger_stein_loop_total:
  "distribution_ok draw \<Longrightarrow> \<forall>c \<in> set (graphs s). task_ok c \<Longrightarrow>
   \<exists>s'. karger_stein_loop draw s = Some s' \<and> graphs s' = []"
proof (induction draw s rule: karger_stein_loop.induct)
  case (1 draw s)
  note rng = "1.prems"(1)
  show ?case
  proof (cases "graphs s = []")
    case True
    then have "karger_stein_loop draw s = Some s" by (subst karger_stein_loop.simps) simp
    then show ?thesis using True by simp
  next
    case False
    from karger_stein_step_total[OF rng False "1.prems"(2)] obtain s1 where
      st: "karger_stein_step draw s = Some s1" and ok1: "\<forall>c \<in> set (graphs s1). task_ok c"
      by blast
    have unf: "karger_stein_loop draw s = karger_stein_loop draw s1"
      using False st by (subst karger_stein_loop.simps) simp
    from "1.IH"[OF False st rng ok1] show ?thesis unfolding unf .
  qed
qed

subsection \<open>What Karger-Stein returns\<close>

text \<open>
  \<open>filtered_of E c\<close>: the edges of the graph \<open>c\<close> are, up to their order, the edges of the
  input \<open>E\<close> that cross the partition of \<open>c\<close>; \<open>crossing_of E c\<close>: at least those of its edges
  that cross its partition are (the first graph of the stack still has the self-loops of
  the input). \<open>good_cut n E b\<close>: \<open>b\<close> is the sentinel, or a cut of \<open>E\<close> into two subsets,
  smaller than the sentinel, whose size is the number of edges of \<open>E\<close> crossing it.
\<close>

definition filtered_of :: "Edge list \<Rightarrow> ContractedGraph \<Rightarrow> bool" where
  "filtered_of E c = (mset (edges c) = filter_mset (crossing (uf c)) (mset E))"

definition crossing_of :: "Edge list \<Rightarrow> ContractedGraph \<Rightarrow> bool" where
  "crossing_of E c =
     (filter_mset (crossing (uf c)) (mset (edges c)) = filter_mset (crossing (uf c)) (mset E))"

lemma filtered_crossing_of: "filtered_of E c \<Longrightarrow> crossing_of E c"
  by (simp add: filtered_of_def crossing_of_def filter_filter_mset)

definition good_cut :: "nat \<Rightarrow> Edge list \<Rightarrow> GraphCut \<Rightarrow> bool" where
  "good_cut n E b =
     (b = \<lparr>cut_size = n, cut_uf = UnionFind_init 0\<rparr>
      \<or> (uf_inv (cut_uf b) \<and> nb_subsets (cut_uf b) = 2 \<and> length (subsets (cut_uf b)) = n
          \<and> cut_size b = length (filter (crossing (cut_uf b)) E) \<and> cut_size b < n))"

lemma child_filtered:
  assumes ch: "child_of graph k es start child" and fo: "crossing_of E graph"
    and eok: "edges_ok (length (subsets (uf graph))) E"
    and eokg: "edges_ok (length (subsets (uf graph))) (edges graph)"
  shows "filtered_of E child"
proof -
  from ch have len: "length (subsets (uf child)) = length (subsets (uf graph))"
    and sub: "uf_rel (uf graph) \<subseteq> uf_rel (uf child)"
    and ms: "mset es = mset (edges graph)" and sl: "start \<le> length es"
    and cons: "\<forall>i < start. \<not> crossing (uf child) (es ! i)"
    and ed: "edges child = filter (crossing (uf child)) (drop start es)"
    by (simp_all add: child_of_def)
  have imp: "crossing (uf graph) e"
    if "tail e < length (subsets (uf graph))" "head e < length (subsets (uf graph))"
      "crossing (uf child) e" for e
  proof (rule ccontr)
    assume n: "\<not> crossing (uf graph) e"
    with that(1,2) have "(tail e, head e) \<in> uf_rel (uf graph)" by (simp add: uf_rel_def crossing_def)
    with sub have "(tail e, head e) \<in> uf_rel (uf child)" by blast
    from not_crossing_uf_rel[OF this] that(3) show False by simp
  qed
  have twice: "filter_mset (crossing (uf child)) (filter_mset (crossing (uf graph)) (mset F))
      = filter_mset (crossing (uf child)) (mset F)"
    if "edges_ok (length (subsets (uf graph))) F" for F
  proof -
    have "crossing (uf graph) e" if "e \<in># mset F" "crossing (uf child) e" for e
      using imp[of e] that \<open>edges_ok (length (subsets (uf graph))) F\<close> by (simp add: edges_ok_def)
    then show ?thesis
      by (simp add: filter_filter_mset) (rule filter_mset_cong, auto)
  qed
  have "filter (crossing (uf child)) es = filter (crossing (uf child)) (drop start es)"
    using cons sl by (intro filter_consumed) simp_all
  then have "mset (edges child) = filter_mset (crossing (uf child)) (mset es)"
    using ed by (simp flip: mset_filter)
  also have "\<dots> = filter_mset (crossing (uf child)) (mset (edges graph))" using ms by simp
  also have "\<dots> = filter_mset (crossing (uf child)) (filter_mset (crossing (uf graph)) (mset (edges graph)))"
    using twice[OF eokg] by simp
  also have "\<dots> = filter_mset (crossing (uf child)) (filter_mset (crossing (uf graph)) (mset E))"
    using fo by (simp add: crossing_of_def)
  also have "\<dots> = filter_mset (crossing (uf child)) (mset E)" using twice[OF eok] .
  finally show ?thesis by (simp add: filtered_of_def)
qed

lemma good_cut_le: "good_cut n E b \<Longrightarrow> cut_size b \<le> n"
  by (auto simp: good_cut_def)

lemma good_cut_leaf:
  assumes ok: "task_ok child" and n2: "n_vertices child = 2"
    and len: "length (subsets (uf child)) = n" and fo: "filtered_of E child"
    and best: "good_cut n E b"
  shows "good_cut n E (min_cut b (cut child))"
proof (cases "cut_size (cut child) < cut_size b")
  case False
  then show ?thesis using best by (simp add: min_cut_def)
next
  case True
  have "length (edges child) = size (mset (edges child))" by simp
  also have "\<dots> = size (filter_mset (crossing (uf child)) (mset E))"
    using fo by (simp add: filtered_of_def)
  also have "\<dots> = length (filter (crossing (uf child)) E)" by (simp flip: mset_filter)
  finally have cs: "cut_size (cut child) = length (filter (crossing (cut_uf (cut child))) E)"
    by (simp add: cut_def)
  have "uf_inv (cut_uf (cut child))" "nb_subsets (cut_uf (cut child)) = 2"
    "length (subsets (cut_uf (cut child))) = n"
    using ok n2 len by (simp_all add: task_ok_def cut_def)
  moreover have "cut_size (cut child) < n" using True good_cut_le[OF best] by simp
  ultimately have "good_cut n E (cut child)" using cs by (simp add: good_cut_def)
  then show ?thesis using True by (simp add: min_cut_def)
qed

text \<open>What holds of every graph of the stack during a run on the edges \<open>E\<close> of \<open>n\<close> vertices.\<close>

definition stack_ok :: "nat \<Rightarrow> Edge list \<Rightarrow> ContractedGraph \<Rightarrow> bool" where
  "stack_ok n E c = (task_ok c \<and> length (subsets (uf c)) = n \<and> crossing_of E c)"

lemma contract_stack_ok:
  assumes rng: "distribution_ok draw" and ok: "stack_ok n E graph" and eok: "edges_ok n E"
    and k: "2 \<le> k" "k \<le> n_vertices graph"
  shows "\<exists>g' es child.
      contract draw g graph k = Some (g', graph\<lparr>edges := es\<rparr>, child)
      \<and> stack_ok n E (graph\<lparr>edges := es\<rparr>) \<and> stack_ok n E child \<and> filtered_of E child
      \<and> n_vertices child = k"
proof -
  from ok have tok: "task_ok graph" and len: "length (subsets (uf graph)) = n"
    and fo: "crossing_of E graph" by (simp_all add: stack_ok_def)
  from tok have eokg: "edges_ok (length (subsets (uf graph))) (edges graph)"
    by (simp add: task_ok_def)
  from contract_total[OF rng tok k, of g] obtain g' es start child where
    c: "contract draw g graph k = Some (g', graph\<lparr>edges := es\<rparr>, child)"
    and ok1: "task_ok (graph\<lparr>edges := es\<rparr>)" and ok2: "task_ok child"
    and ch: "child_of graph k es start child" by blast
  have eok': "edges_ok (length (subsets (uf graph))) E" using eok len by simp
  have fo2: "filtered_of E child" using ch fo eok' eokg by (rule child_filtered)
  from ch have ms: "mset es = mset (edges graph)" and nk: "n_vertices child = k"
    and len2: "length (subsets (uf child)) = n" using len by (simp_all add: child_of_def)
  have fo1: "crossing_of E (graph\<lparr>edges := es\<rparr>)" using fo ms by (simp add: crossing_of_def)
  have "stack_ok n E (graph\<lparr>edges := es\<rparr>)" using ok1 len fo1 by (simp add: stack_ok_def)
  moreover have "stack_ok n E child"
    using ok2 len2 filtered_crossing_of[OF fo2] by (simp add: stack_ok_def)
  ultimately show ?thesis using c nk fo2 by blast
qed

lemma karger_stein_step_good:
  assumes rng: "distribution_ok draw" and eok: "edges_ok n E" and ne: "graphs s \<noteq> []"
    and ok: "\<forall>c \<in> set (graphs s). stack_ok n E c" and best: "good_cut n E (best_minimum_cut s)"
  shows "\<exists>s'. karger_stein_step draw s = Some s' \<and> (\<forall>c \<in> set (graphs s'). stack_ok n E c)
     \<and> good_cut n E (best_minimum_cut s')"
proof -
  from ne obtain graph rest where Cons: "graphs s = graph # rest" by (cases "graphs s") auto
  have okg: "stack_ok n E graph" and okr: "\<forall>c \<in> set rest. stack_ok n E c"
    using ok Cons by simp_all
  then have n2: "2 \<le> n_vertices graph" by (simp add: stack_ok_def task_ok_def)
  show ?thesis
  proof (cases "n_vertices graph \<le> 6")
    case True
    have k: "(2::nat) \<le> 2" by simp
    from contract_stack_ok[OF rng okg eok k n2, of "mt s"] obtain g' es child where
      c: "contract draw (mt s) graph 2 = Some (g', graph\<lparr>edges := es\<rparr>, child)"
      and okc: "stack_ok n E child" and foc: "filtered_of E child"
      and nc: "n_vertices child = 2" by blast
    let ?s = "s\<lparr>best_minimum_cut := min_cut (best_minimum_cut s) (cut child),
                    graphs := rest, mt := g'\<rparr>"
    have st: "karger_stein_step draw s = Some ?s" using Cons True c by (rule karger_stein_step_leaf)
    have "good_cut n E (min_cut (best_minimum_cut s) (cut child))"
      using okc nc best foc by (intro good_cut_leaf) (simp_all add: stack_ok_def)
    then show ?thesis using st okr by simp
  next
    case False
    then have n: "6 < n_vertices graph" by simp
    let ?t = "t_of (n_vertices graph)"
    have t2: "2 \<le> ?t" using t_of_ge2[of "n_vertices graph"] n2 by simp
    have tn: "?t \<le> n_vertices graph" using t_of_less[OF n] by simp
    from contract_stack_ok[OF rng okg eok t2 tn, of "mt s"] obtain g1 es1 child1 where
      c1: "contract draw (mt s) graph ?t = Some (g1, graph\<lparr>edges := es1\<rparr>, child1)"
      and ok1: "stack_ok n E (graph\<lparr>edges := es1\<rparr>)" and okc1: "stack_ok n E child1" by blast
    have tn1: "?t \<le> n_vertices (graph\<lparr>edges := es1\<rparr>)" using tn by simp
    from contract_stack_ok[OF rng ok1 eok t2 tn1, of g1] obtain g2 es2 child2 where
      c2: "contract draw g1 (graph\<lparr>edges := es1\<rparr>) ?t
            = Some (g2, graph\<lparr>edges := es1\<rparr>\<lparr>edges := es2\<rparr>, child2)"
      and okc2: "stack_ok n E child2" by blast
    let ?s = "s\<lparr>graphs := child2 # child1 # rest, mt := g2\<rparr>"
    have st: "karger_stein_step draw s = Some ?s"
      using Cons n c1 c2 by (rule karger_stein_step_internal)
    show ?thesis using st okr okc1 okc2 best by simp
  qed
qed

lemma karger_stein_loop_good:
  "distribution_ok draw \<Longrightarrow> edges_ok n E \<Longrightarrow> \<forall>c \<in> set (graphs s). stack_ok n E c \<Longrightarrow>
   good_cut n E (best_minimum_cut s) \<Longrightarrow>
   \<exists>s'. karger_stein_loop draw s = Some s' \<and> good_cut n E (best_minimum_cut s')"
proof (induction draw s rule: karger_stein_loop.induct)
  case (1 draw s)
  note rng = "1.prems"(1) and eok = "1.prems"(2) and best = "1.prems"(4)
  show ?case
  proof (cases "graphs s = []")
    case True
    then have "karger_stein_loop draw s = Some s" by (subst karger_stein_loop.simps) simp
    then show ?thesis using best by simp
  next
    case False
    from karger_stein_step_good[OF rng eok False "1.prems"(3) best] obtain s1 where
      st: "karger_stein_step draw s = Some s1"
      and ok1: "\<forall>c \<in> set (graphs s1). stack_ok n E c"
      and b1: "good_cut n E (best_minimum_cut s1)" by blast
    have unf: "karger_stein_loop draw s = karger_stein_loop draw s1"
      using False st by (subst karger_stein_loop.simps) simp
    from "1.IH"[OF False st rng eok ok1 b1] show ?thesis unfolding unf .
  qed
qed

text \<open>
  On a connected graph of at most \<open>2\<^sup>3\<^sup>1\<close> edges, \<open>karger_stein_union_find\<close> returns either
  its sentinel or a cut into two subsets whose size is the number of edges of the input
  crossing it.
\<close>

lemma karger_stein_result:
  assumes rng: "distribution_ok draw" and conn: "connected_graph G"
    and eok: "edges_ok (n_vertices G) (edges G)" and n: "2 \<le> n_vertices G"
    and len: "length (edges G) \<le> 2147483648"
  shows "\<exists>s'. karger_stein_union_find draw g G = Some s'
     \<and> good_cut (n_vertices G) (edges G) (best_minimum_cut s')"
proof -
  let ?task = "\<lparr>n_vertices = n_vertices G, edges = edges G, uf = UnionFind_init (n_vertices G)\<rparr>"
  let ?s = "\<lparr>input_graph = G,
        best_minimum_cut = \<lparr>cut_size = n_vertices G, cut_uf = UnionFind_init 0\<rparr>,
        graphs = [?task], mt = g\<rparr>"
  have l: "length (subsets (UnionFind_init (n_vertices G))) = n_vertices G"
    by (simp add: UnionFind_init_def)
  have tok: "task_ok ?task"
    using uf_inv_init[of "n_vertices G"] connected_over_init[OF conn] eok n len
    by (simp add: task_ok_def) (simp add: UnionFind_init_def)
  have "crossing_of (edges G) ?task" by (simp add: crossing_of_def)
  then have "\<forall>c \<in> set (graphs ?s). stack_ok (n_vertices G) (edges G) c"
    using tok l by (simp add: stack_ok_def)
  moreover have "good_cut (n_vertices G) (edges G) (best_minimum_cut ?s)"
    by (simp add: good_cut_def)
  ultimately show ?thesis
    using karger_stein_loop_good[OF rng eok, of ?s] by (simp add: karger_stein_union_find_def)
qed

section \<open>The claims about the contraction algorithms\<close>

subsection \<open>Concrete engines and graphs\<close>

definition draw_first :: "unit \<Rightarrow> int \<Rightarrow> int \<times> unit" where
  "draw_first g m = (0, g)"

definition draw_last :: "unit \<Rightarrow> int \<Rightarrow> int \<times> unit" where
  "draw_last g m = (m, g)"

definition path3 :: EdgesVectorGraph where
  "path3 = \<lparr>n_vertices = 3, edges = [\<lparr>tail = 0, head = 1\<rparr>, \<lparr>tail = 1, head = 2\<rparr>]\<rparr>"

definition tri3 :: EdgesVectorGraph where
  "tri3 = \<lparr>n_vertices = 3,
            edges = [\<lparr>tail = 0, head = 1\<rparr>, \<lparr>tail = 1, head = 2\<rparr>, \<lparr>tail = 0, head = 2\<rparr>]\<rparr>"

definition tree5 :: EdgesVectorGraph where
  "tree5 = \<lparr>n_vertices = 5,
             edges = [\<lparr>tail = 0, head = 1\<rparr>, \<lparr>tail = 2, head = 3\<rparr>,
                      \<lparr>tail = 0, head = 2\<rparr>, \<lparr>tail = 0, head = 4\<rparr>]\<rparr>"

definition dbl2 :: EdgesVectorGraph where
  "dbl2 = \<lparr>n_vertices = 2, edges = [\<lparr>tail = 0, head = 1\<rparr>, \<lparr>tail = 0, head = 1\<rparr>]\<rparr>"

definition dtri3 :: EdgesVectorGraph where
  "dtri3 = \<lparr>n_vertices = 3,
             edges = [\<lparr>tail = 0, head = 1\<rparr>, \<lparr>tail = 0, head = 1\<rparr>, \<lparr>tail = 1, head = 2\<rparr>,
                      \<lparr>tail = 1, head = 2\<rparr>, \<lparr>tail = 0, head = 2\<rparr>, \<lparr>tail = 0, head = 2\<rparr>]\<rparr>"

definition path7 :: ContractedGraph where
  "path7 = \<lparr>n_vertices = 7,
             edges = [\<lparr>tail = 0, head = 1\<rparr>, \<lparr>tail = 1, head = 2\<rparr>, \<lparr>tail = 2, head = 3\<rparr>,
                      \<lparr>tail = 3, head = 4\<rparr>, \<lparr>tail = 4, head = 5\<rparr>, \<lparr>tail = 5, head = 6\<rparr>],
             uf = UnionFind_init 7\<rparr>"

text \<open>
  A graph of three vertices and \<open>2\<^sup>3\<^sup>1 + 1\<close> edges: \<open>2\<^sup>3\<^sup>1\<close> parallel edges \<open>0 - 1\<close> and one
  edge \<open>1 - 2\<close>; and the path of \<open>n\<close> vertices with its fresh structure.
\<close>

definition big_edges :: "Edge list" where
  "big_edges = replicate 2147483648 \<lparr>tail = 0, head = 1\<rparr> @ [\<lparr>tail = 1, head = 2\<rparr>]"

definition big3 :: EdgesVectorGraph where
  "big3 = \<lparr>n_vertices = 3, edges = big_edges\<rparr>"

definition path_graph :: "nat \<Rightarrow> ContractedGraph" where
  "path_graph n = \<lparr>n_vertices = n, edges = map (\<lambda>i. \<lparr>tail = i, head = Suc i\<rparr>) [0..<n - 1],
                   uf = UnionFind_init n\<rparr>"

lemmas algo_eval = karger_union_find_def karger_stein_union_find_def karger_stein_loop.simps
  karger_stein_step_def contract_def contraction_def int32_of_def contraction_loop.simps
  connected_uf_def find_uf_def find_root.simps compress.simps
  merge_uf_def attach_def UnionFind_init_def cut_def min_cut_def iter_swap_def upt_rec
  draw_first_def draw_last_def

lemmas t_eval = t_of_def ceil_mul_INV_SQRT_2_def round53_def shift53.simps Let_def

lemma distribution_ok_first: "distribution_ok draw_first"
  by (simp add: distribution_ok_def draw_first_def)

lemma distribution_ok_last: "distribution_ok draw_last"
  by (simp add: distribution_ok_def draw_last_def)

lemma connected_chain:
  assumes "\<And>i. Suc i < n_vertices G \<Longrightarrow> (Suc i, i) \<in> edge_rel (edges G)"
  shows "connected_graph G"
proof (rule connected_graphI)
  fix x show "x < n_vertices G \<Longrightarrow> (x, 0) \<in> (edge_rel (edges G))\<^sup>*"
  proof (induction x)
    case 0
    show ?case by simp
  next
    case (Suc x)
    then have "(x, 0) \<in> (edge_rel (edges G))\<^sup>*" by simp
    moreover have "(Suc x, x) \<in> edge_rel (edges G)" using assms Suc.prems by simp
    ultimately show ?case by (rule converse_rtrancl_into_rtrancl[rotated])
  qed
qed

lemma connected_path3: "connected_graph path3"
proof (rule connected_chain)
  fix i assume "Suc i < n_vertices path3"
  then have "i < 2" by (simp add: path3_def)
  then have "i = 0 \<or> i = 1" by arith
  then show "(Suc i, i) \<in> edge_rel (edges path3)" by (auto simp: edge_rel_def path3_def)
qed

lemma connected_tri3: "connected_graph tri3"
proof (rule connected_chain)
  fix i assume "Suc i < n_vertices tri3"
  then have "i < 2" by (simp add: tri3_def)
  then have "i = 0 \<or> i = 1" by arith
  then show "(Suc i, i) \<in> edge_rel (edges tri3)" by (auto simp: edge_rel_def tri3_def)
qed

lemma connected_dbl2: "connected_graph dbl2"
proof (rule connected_chain)
  fix i assume "Suc i < n_vertices dbl2"
  then have "i = 0" by (simp add: dbl2_def)
  then show "(Suc i, i) \<in> edge_rel (edges dbl2)" by (auto simp: edge_rel_def dbl2_def)
qed

lemma connected_dtri3: "connected_graph dtri3"
proof (rule connected_chain)
  fix i assume "Suc i < n_vertices dtri3"
  then have "i < 2" by (simp add: dtri3_def)
  then have "i = 0 \<or> i = 1" by arith
  then show "(Suc i, i) \<in> edge_rel (edges dtri3)" by (auto simp: edge_rel_def dtri3_def)
qed

lemma connected_tree5: "connected_graph tree5"
proof (rule connected_graphI)
  fix x assume "x < n_vertices tree5"
  then have "x < 5" by (simp add: tree5_def)
  then have x: "x = 0 \<or> x = 1 \<or> x = 2 \<or> x = 3 \<or> x = 4" by arith
  let ?R = "edge_rel (edges tree5)"
  have 1: "(1, 0) \<in> ?R" and 2: "(2, 0) \<in> ?R" and 3: "(3, 2) \<in> ?R" and 4: "(4, 0) \<in> ?R"
    by (simp_all add: edge_rel_def tree5_def)
  have "(0, 0) \<in> ?R\<^sup>*" by simp
  moreover have "(1, 0) \<in> ?R\<^sup>*" using 1 by (rule r_into_rtrancl)
  moreover have "(2, 0) \<in> ?R\<^sup>*" using 2 by (rule r_into_rtrancl)
  moreover have "(3, 0) \<in> ?R\<^sup>*" using 3 2 by (rule converse_rtrancl_into_rtrancl[OF _ r_into_rtrancl])
  moreover have "(4, 0) \<in> ?R\<^sup>*" using 4 by (rule r_into_rtrancl)
  ultimately show "(x, 0) \<in> ?R\<^sup>*" using x by auto
qed

lemma task_ok_path7: "task_ok path7"
proof -
  let ?G = "\<lparr>n_vertices = 7, edges = edges path7\<rparr>"
  have "connected_graph ?G"
  proof (rule connected_chain)
    fix i assume "Suc i < n_vertices ?G"
    then have "i < 6" by simp
    then have "i = 0 \<or> i = 1 \<or> i = 2 \<or> i = 3 \<or> i = 4 \<or> i = 5" by arith
    then show "(Suc i, i) \<in> edge_rel (edges ?G)" by (auto simp: edge_rel_def path7_def)
  qed
  from connected_over_init[OF this] have "connected_over (uf path7) (edges path7)"
    by (simp add: path7_def)
  moreover have "uf_inv (uf path7)" using uf_inv_init[of 7] by (simp add: path7_def)
  moreover have "edges_ok (length (subsets (uf path7))) (edges path7)"
    by (simp add: edges_ok_def path7_def UnionFind_init_def)
  moreover have "nb_subsets (uf path7) = n_vertices path7" by (simp add: path7_def UnionFind_init_def)
  moreover have "2 \<le> n_vertices path7" by (simp add: path7_def)
  moreover have "length (edges path7) \<le> 2147483648" by (simp add: path7_def)
  ultimately show ?thesis unfolding task_ok_def by (intro conjI)
qed

lemma length_big_edges: "length big_edges = 2147483649"
  unfolding big_edges_def by (simp only: length_append length_replicate) simp

lemma set_big_edges: "set big_edges = {\<lparr>tail = 0, head = 1\<rparr>, \<lparr>tail = 1, head = 2\<rparr>}"
proof -
  have "set (replicate 2147483648 \<lparr>tail = 0, head = 1\<rparr>) = {\<lparr>tail = 0, head = 1\<rparr>}"
    by (rule set_replicate) simp
  then show ?thesis unfolding big_edges_def by (simp only: set_append) auto
qed

lemma big3_sel: "n_vertices big3 = 3" "edges big3 = big_edges"
  unfolding big3_def by simp_all

lemma edges_ok_big3: "edges_ok (n_vertices big3) (edges big3)"
  unfolding big3_sel edges_ok_def set_big_edges by simp

lemma connected_big3: "connected_graph big3"
proof (rule connected_chain)
  fix i assume "Suc i < n_vertices big3"
  then have "i < 2" by (simp add: big3_sel)
  then have "i = 0 \<or> i = 1" by arith
  then show "(Suc i, i) \<in> edge_rel (edges big3)"
    unfolding big3_sel edge_rel_def set_big_edges by auto
qed

lemma path_graph_sel:
  "n_vertices (path_graph n) = n" "uf (path_graph n) = UnionFind_init n"
  "edges (path_graph n) = map (\<lambda>i. \<lparr>tail = i, head = Suc i\<rparr>) [0..<n - 1]"
  unfolding path_graph_def by simp_all

lemma task_ok_path_graph:
  assumes n: "2 \<le> n" and b: "n \<le> 2147483648"
  shows "task_ok (path_graph n)"
proof -
  let ?es = "map (\<lambda>i. \<lparr>tail = i, head = Suc i\<rparr>) [0..<n - 1]"
  let ?G = "\<lparr>n_vertices = n, edges = ?es\<rparr>"
  have "connected_graph ?G"
  proof (rule connected_chain)
    fix i assume "Suc i < n_vertices ?G"
    then have i: "i < n - 1" by simp
    then have "\<lparr>tail = i, head = Suc i\<rparr> \<in> set ?es" by (simp only: set_map set_upt) auto
    then have "(head \<lparr>tail = i, head = Suc i\<rparr>, tail \<lparr>tail = i, head = Suc i\<rparr>) \<in> edge_rel ?es"
      by (rule edge_relI2)
    then show "(Suc i, i) \<in> edge_rel (edges ?G)" by simp
  qed
  from connected_over_init[OF this] have 1: "connected_over (UnionFind_init n) ?es" by simp
  have 2: "uf_inv (UnionFind_init n)" by (rule uf_inv_init)
  have l: "length (subsets (UnionFind_init n)) = n" by (simp add: UnionFind_init_def)
  have 3: "edges_ok (length (subsets (UnionFind_init n))) ?es"
    unfolding l edges_ok_def by auto
  have 4: "nb_subsets (UnionFind_init n) = n" by (simp add: UnionFind_init_def)
  have 5: "length ?es \<le> 2147483648" using b by simp
  show ?thesis unfolding task_ok_def path_graph_sel using 2 3 1 4 n 5 by (intro conjI)
qed

text \<open>
  Claim C4, as amended. For a connected contracted graph (a well-formed structure \<open>u\<close> and
  edges \<open>es\<close> between its elements that join all of them; for the fresh structure this is
  a connected graph, lemma \<open>connected_over_init\<close>) with at most \<open>2\<^sup>3\<^sup>1\<close> edges, and every
  target \<open>k\<close> with \<open>2 \<le> k \<le> nb_subsets\<close>, the contraction loop, started as the code starts
  it, returns. A result is returned only when every number drawn and every index stayed
  in range. The structure it leaves is well formed, over the same elements, with exactly
  \<open>k\<close> subsets; the cursor is within the edges, which have only been permuted; the
  partition is the one of \<open>u\<close> with the endpoints of every edge before the cursor merged,
  and nothing else merged; the edges from the cursor on still connect it. When \<open>k\<close>
  already is the number of subsets, no iteration is made: engine, structure, edges and
  cursor are as they were.
\<close>

theorem contraction_loop_terminates:
  assumes "distribution_ok draw" and "uf_inv u" and "edges_ok (length (subsets u)) es"
    and "connected_over u es" and "2 \<le> k" and "k \<le> nb_subsets u"
    and "length es \<le> 2147483648"
  shows "\<exists>g' u' es' start'.
       contraction draw k g u es = Some (g', u', es', start')
     \<and> nb_subsets u' = k \<and> uf_inv u' \<and> length (subsets u') = length (subsets u)
     \<and> start' \<le> length es \<and> mset es' = mset es
     \<and> uf_rel u \<union> edge_rel (take start' es') \<subseteq> uf_rel u'
     \<and> uf_rel u' \<subseteq> (uf_rel u \<union> edge_rel (take start' es'))\<^sup>*
     \<and> connected_over u' (drop start' es')
     \<and> (k = nb_subsets u \<longrightarrow> g' = g \<and> u' = u \<and> es' = es \<and> start' = 0)"
proof -
  have k1: "1 \<le> k" using assms(5) by simp
  from contraction_total[OF assms(1) k1 assms(2,3,4,6,7), of g]
  obtain g' u' es' start' where
    loop: "contraction draw k g u es = Some (g', u', es', start')"
    and post: "loop_post k u es 0 u' es' start'" by auto
  from post have P: "nb_subsets u' = k" "uf_inv u'" "length (subsets u') = length (subsets u)"
    "start' \<le> length es" "connected_over u' (drop start' es')" "uf_rel u \<subseteq> uf_rel u'"
    "\<forall>i. 0 \<le> i \<and> i < start' \<longrightarrow> (tail (es' ! i), head (es' ! i)) \<in> uf_rel u'"
    "uf_rel u' \<subseteq> (uf_rel u \<union> edge_rel (take start' es'))\<^sup>*"
    by (simp_all add: loop_post_def)
  from contraction_perm[OF loop] have ms: "mset es' = mset es" .
  have merged: "uf_rel u \<union> edge_rel (take start' es') \<subseteq> uf_rel u'"
  proof -
    have "edge_rel (take start' es') \<subseteq> uf_rel u'"
    proof
      fix ab assume "ab \<in> edge_rel (take start' es')"
      then obtain e where e: "e \<in> set (take start' es')"
        and ab: "ab = (tail e, head e) \<or> ab = (head e, tail e)" by (auto simp: edge_rel_def)
      from e obtain i where "i < length (take start' es')" "take start' es' ! i = e"
        by (auto simp: in_set_conv_nth)
      then have "i < start'" "es' ! i = e" by simp_all
      with P(7) have "(tail e, head e) \<in> uf_rel u'" by auto
      with ab uf_rel_sym show "ab \<in> uf_rel u'" by blast
    qed
    with P(6) show ?thesis by (rule Un_least)
  qed
  have stop: "k = nb_subsets u \<longrightarrow> g' = g \<and> u' = u \<and> es' = es \<and> start' = 0"
  proof
    assume "k = nb_subsets u"
    then have "contraction draw k g u es = Some (g, u, es, 0)"
      by (simp add: contraction_stop)
    with loop show "g' = g \<and> u' = u \<and> es' = es \<and> start' = 0" by simp
  qed
  have "contraction draw k g u es = Some (g', u', es', start')
     \<and> nb_subsets u' = k \<and> uf_inv u' \<and> length (subsets u') = length (subsets u)
     \<and> start' \<le> length es \<and> mset es' = mset es
     \<and> uf_rel u \<union> edge_rel (take start' es') \<subseteq> uf_rel u'
     \<and> uf_rel u' \<subseteq> (uf_rel u \<union> edge_rel (take start' es'))\<^sup>*
     \<and> connected_over u' (drop start' es')
     \<and> (k = nb_subsets u \<longrightarrow> g' = g \<and> u' = u \<and> es' = es \<and> start' = 0)"
    by (intro conjI) (rule loop P(1,2,3,4,5,8) ms merged stop)+
  then show ?thesis by (intro exI)
qed

theorem contraction_loop_terminates_witness:
  "distribution_ok draw_first \<and> uf_inv (UnionFind_init 3)
   \<and> edges_ok (length (subsets (UnionFind_init 3))) (edges path3)
   \<and> connected_over (UnionFind_init 3) (edges path3) \<and> (2::nat) \<le> 2
   \<and> 2 \<le> nb_subsets (UnionFind_init 3) \<and> length (edges path3) \<le> 2147483648
   \<and> contraction draw_first 2 () (UnionFind_init 3) (edges path3)
        = Some ((), pair3, edges path3, 1)
   \<and> (\<exists>g' u' es' start'.
       contraction draw_first 2 () (UnionFind_init 3) (edges path3) = Some (g', u', es', start')
     \<and> nb_subsets u' = 2 \<and> uf_inv u' \<and> length (subsets u') = length (subsets (UnionFind_init 3))
     \<and> start' \<le> length (edges path3) \<and> mset es' = mset (edges path3)
     \<and> uf_rel (UnionFind_init 3) \<union> edge_rel (take start' es') \<subseteq> uf_rel u'
     \<and> uf_rel u' \<subseteq> (uf_rel (UnionFind_init 3) \<union> edge_rel (take start' es'))\<^sup>*
     \<and> connected_over u' (drop start' es')
     \<and> (2 = nb_subsets (UnionFind_init 3) \<longrightarrow>
          g' = () \<and> u' = UnionFind_init 3 \<and> es' = edges path3 \<and> start' = 0))
   \<and> (2::nat) \<le> 3 \<and> 3 \<le> nb_subsets (UnionFind_init 3) \<and> 3 = nb_subsets (UnionFind_init 3)
   \<and> contraction draw_first 3 () (UnionFind_init 3) (edges path3)
        = Some ((), UnionFind_init 3, edges path3, 0)"
  (is "?A \<and> ?B \<and> ?C \<and> ?D \<and> ?E \<and> ?F \<and> ?L \<and> ?G \<and> ?H \<and> ?E3 \<and> ?F3 \<and> ?K3 \<and> ?Z")
proof -
  have a: ?A by (rule distribution_ok_first)
  have b: ?B by (rule uf_inv_init)
  have c: ?C by (simp add: edges_ok_def path3_def UnionFind_init_def)
  have d: ?D using connected_over_init[OF connected_path3] by (simp add: path3_def)
  have e: ?E by simp
  have f: ?F by (simp add: UnionFind_init_def)
  have l: ?L by (simp add: path3_def)
  have g: ?G by (simp add: algo_eval path3_def pair3_def)
  have h: ?H by (rule contraction_loop_terminates[OF a b c d e f l])
  have e3: ?E3 by simp
  have f3: ?F3 by (simp add: UnionFind_init_def)
  have k3: ?K3 by (simp add: UnionFind_init_def)
  from contraction_loop_terminates[OF a b c d e3 f3 l, of "()"] obtain g' u' es' start' where
    r: "contraction draw_first 3 () (UnionFind_init 3) (edges path3) = Some (g', u', es', start')"
    and st: "3 = nb_subsets (UnionFind_init 3) \<longrightarrow>
          g' = () \<and> u' = UnionFind_init 3 \<and> es' = edges path3 \<and> start' = 0" by blast
  from r st k3 have z: ?Z by simp
  from a b c d e f l g h e3 f3 k3 z show ?thesis by (intro conjI)
qed

text \<open>
  The claim as stated (every connected graph) fails on the code: on the connected graph
  \<open>big3\<close> of three vertices and \<open>2\<^sup>3\<^sup>1 + 1\<close> edges, the counter \<open>int m = size(edges) - 1\<close>
  starts at \<open>-2\<^sup>3\<^sup>1\<close>, and the first iteration of the loop towards two subsets builds
  \<open>std::uniform_int_distribution<>{0, m}\<close> with \<open>m < 0\<close>, whatever the engine.
\<close>

theorem contraction_loop_overflow_counterexample:
  "uf_inv (UnionFind_init 3)
   \<and> edges_ok (length (subsets (UnionFind_init 3))) big_edges
   \<and> connected_over (UnionFind_init 3) big_edges
   \<and> (2::nat) \<le> 2 \<and> 2 \<le> nb_subsets (UnionFind_init 3)
   \<and> length big_edges = 2147483649
   \<and> int32_of (int (length big_edges) - 1) = - 2147483648
   \<and> (\<forall>(draw :: 'g \<Rightarrow> int \<Rightarrow> int \<times> 'g) g. contraction draw 2 g (UnionFind_init 3) big_edges = None)"
proof (intro conjI allI)
  show "uf_inv (UnionFind_init 3)" by (rule uf_inv_init)
  show "edges_ok (length (subsets (UnionFind_init 3))) big_edges"
    using edges_ok_big3 by (simp add: big3_sel UnionFind_init_def)
  show "connected_over (UnionFind_init 3) big_edges"
    using connected_over_init[OF connected_big3] by (simp add: big3_sel)
  show "(2::nat) \<le> 2" by simp
  show "2 \<le> nb_subsets (UnionFind_init 3)" by (simp add: UnionFind_init_def)
  show "length big_edges = 2147483649" by (rule length_big_edges)
  show "int32_of (int (length big_edges) - 1) = - 2147483648"
    by (simp add: length_big_edges int32_of_def)
  fix draw :: "'g \<Rightarrow> int \<Rightarrow> int \<times> 'g" and g
  show "contraction draw 2 g (UnionFind_init 3) big_edges = None"
    by (rule contraction_overflow[OF length_big_edges]) (simp add: UnionFind_init_def)
qed

text \<open>
  Claim C9, as amended. Whenever \<open>karger_union_find\<close> returns, the graph it leaves has the
  vertex count it had and an edge list that is a permutation of the original one; and on
  every connected graph of at least two vertices, with edges between vertices, at most
  \<open>2\<^sup>3\<^sup>1\<close> of them, it returns.
\<close>

theorem karger_union_find_permutes:
  "(karger_union_find draw g G = Some (g', c, G') \<longrightarrow>
      n_vertices G' = n_vertices G \<and> mset (edges G') = mset (edges G))
   \<and> (distribution_ok draw \<and> connected_graph G \<and> edges_ok (n_vertices G) (edges G)
        \<and> 2 \<le> n_vertices G \<and> length (edges G) \<le> 2147483648 \<longrightarrow>
      (\<exists>g' c G'. karger_union_find draw g G = Some (g', c, G')))"
proof (intro conjI impI)
  assume k: "karger_union_find draw g G = Some (g', c, G')"
  from karger_union_find_frame[OF k]
  show "n_vertices G' = n_vertices G" "mset (edges G') = mset (edges G)" by simp_all
next
  assume a: "distribution_ok draw \<and> connected_graph G \<and> edges_ok (n_vertices G) (edges G)
        \<and> 2 \<le> n_vertices G \<and> length (edges G) \<le> 2147483648"
  then have "distribution_ok draw" "connected_graph G" "edges_ok (n_vertices G) (edges G)"
    "2 \<le> n_vertices G" "length (edges G) \<le> 2147483648" by simp_all
  from karger_union_find_cut[OF this, of g]
  show "\<exists>g' c G'. karger_union_find draw g G = Some (g', c, G')" by blast
qed

definition tri3_shuffled :: EdgesVectorGraph where
  "tri3_shuffled = \<lparr>n_vertices = 3,
       edges = [\<lparr>tail = 0, head = 2\<rparr>, \<lparr>tail = 1, head = 2\<rparr>, \<lparr>tail = 0, head = 1\<rparr>]\<rparr>"

definition tri3_cut :: GraphCut where
  "tri3_cut = \<lparr>cut_size = 2,
       cut_uf = \<lparr>subsets = [\<lparr>id_f = 0, size_f = 2\<rparr>, \<lparr>id_f = 1, size_f = 1\<rparr>,
                             \<lparr>id_f = 0, size_f = 1\<rparr>], nb_subsets = 2\<rparr>\<rparr>"

lemma karger_tri3: "karger_union_find draw_last () tri3 = Some ((), tri3_cut, tri3_shuffled)"
  by (simp add: algo_eval tri3_def tri3_cut_def tri3_shuffled_def)

theorem karger_union_find_permutes_witness:
  "karger_union_find draw_last () tri3 = Some ((), tri3_cut, tri3_shuffled)
   \<and> edges tri3_shuffled \<noteq> edges tri3
   \<and> n_vertices tri3_shuffled = n_vertices tri3 \<and> mset (edges tri3_shuffled) = mset (edges tri3)
   \<and> distribution_ok draw_last \<and> connected_graph tri3 \<and> edges_ok (n_vertices tri3) (edges tri3)
   \<and> 2 \<le> n_vertices tri3 \<and> length (edges tri3) \<le> 2147483648
   \<and> (\<exists>g' c G'. karger_union_find draw_last () tri3 = Some (g', c, G'))"
proof -
  note t = karger_union_find_permutes[of draw_last "()" tri3 "()" tri3_cut tri3_shuffled]
  have ne: "edges tri3_shuffled \<noteq> edges tri3" by (simp add: tri3_def tri3_shuffled_def)
  from t karger_tri3 have fr: "n_vertices tri3_shuffled = n_vertices tri3"
    "mset (edges tri3_shuffled) = mset (edges tri3)" by blast+
  have eok: "edges_ok (n_vertices tri3) (edges tri3)" by (simp add: edges_ok_def tri3_def)
  have n: "2 \<le> n_vertices tri3" by (simp add: tri3_def)
  have l: "length (edges tri3) \<le> 2147483648" by (simp add: tri3_def)
  from t distribution_ok_last connected_tri3 eok n l
  have ex: "\<exists>g' c G'. karger_union_find draw_last () tri3 = Some (g', c, G')" by blast
  from karger_tri3 ne fr distribution_ok_last connected_tri3 eok n l ex show ?thesis
    by (intro conjI)
qed

text \<open>
  The claim as stated (every input graph) fails on the code: on the connected graph
  \<open>big3\<close> of three vertices and \<open>2\<^sup>3\<^sup>1 + 1\<close> edges between them, the call has no result,
  whatever the engine: its loop builds a distribution \<open>{0, m}\<close> with \<open>m = -2\<^sup>3\<^sup>1\<close>.
\<close>

theorem karger_union_find_overflow_counterexample:
  "connected_graph big3 \<and> edges_ok (n_vertices big3) (edges big3) \<and> 2 \<le> n_vertices big3
   \<and> length (edges big3) = 2147483649
   \<and> (\<forall>(draw :: 'g \<Rightarrow> int \<Rightarrow> int \<times> 'g) g. karger_union_find draw g big3 = None)"
proof (intro conjI allI)
  show "connected_graph big3" by (rule connected_big3)
  show "edges_ok (n_vertices big3) (edges big3)" by (rule edges_ok_big3)
  show "2 \<le> n_vertices big3" by (simp add: big3_sel)
  show "length (edges big3) = 2147483649" by (simp only: big3_sel length_big_edges)
  fix draw :: "'g \<Rightarrow> int \<Rightarrow> int \<times> 'g" and g
  have "contraction draw 2 g (UnionFind_init 3) big_edges = None"
    by (rule contraction_overflow[OF length_big_edges]) (simp add: UnionFind_init_def)
  then show "karger_union_find draw g big3 = None"
    by (simp add: karger_union_find_def big3_sel)
qed

text \<open>
  Claim C10, as amended. Whenever \<open>karger_stein_union_find\<close> returns, its input graph,
  vertex count and edge list in their order, is what it was; and on every connected graph
  of at least two vertices, with edges between vertices, at most \<open>2\<^sup>3\<^sup>1\<close> of them, it
  returns, with an empty stack.
\<close>

theorem karger_stein_input_unchanged:
  "(karger_stein_union_find draw g G = Some s' \<longrightarrow> input_graph s' = G)
   \<and> (distribution_ok draw \<and> connected_graph G \<and> edges_ok (n_vertices G) (edges G)
        \<and> 2 \<le> n_vertices G \<and> length (edges G) \<le> 2147483648 \<longrightarrow>
      (\<exists>s'. karger_stein_union_find draw g G = Some s' \<and> input_graph s' = G \<and> graphs s' = []))"
proof -
  let ?task = "\<lparr>n_vertices = n_vertices G, edges = edges G, uf = UnionFind_init (n_vertices G)\<rparr>"
  let ?s = "\<lparr>input_graph = G,
        best_minimum_cut = \<lparr>cut_size = n_vertices G, cut_uf = UnionFind_init 0\<rparr>,
        graphs = [?task], mt = g\<rparr>"
  have fr: "input_graph s' = G" if "karger_stein_union_find draw g G = Some s'" for s'
    using karger_stein_loop_frame[of draw ?s s'] that by (simp add: karger_stein_union_find_def)
  have tot: "\<exists>s'. karger_stein_union_find draw g G = Some s' \<and> input_graph s' = G \<and> graphs s' = []"
    if a: "distribution_ok draw \<and> connected_graph G \<and> edges_ok (n_vertices G) (edges G)
        \<and> 2 \<le> n_vertices G \<and> length (edges G) \<le> 2147483648"
  proof -
    from a have rng: "distribution_ok draw" and conn: "connected_graph G"
      and eok: "edges_ok (n_vertices G) (edges G)" and n: "2 \<le> n_vertices G"
      and len: "length (edges G) \<le> 2147483648" by simp_all
    have "task_ok ?task"
      using uf_inv_init[of "n_vertices G"] connected_over_init[OF conn] eok n len
      by (simp add: task_ok_def) (simp add: UnionFind_init_def)
    then have "\<forall>c \<in> set (graphs ?s). task_ok c" by simp
    from karger_stein_loop_total[OF rng this] obtain s' where
      s': "karger_stein_union_find draw g G = Some s'" "graphs s' = []"
      by (auto simp: karger_stein_union_find_def)
    with fr[OF s'(1)] show ?thesis by blast
  qed
  from fr tot show ?thesis by blast
qed

definition tri3_final :: "unit ks_state" where
  "tri3_final = \<lparr>input_graph = tri3, best_minimum_cut = tri3_cut, graphs = [], mt = ()\<rparr>"

lemma karger_stein_tri3: "karger_stein_union_find draw_last () tri3 = Some tri3_final"
  by (simp add: algo_eval tri3_def tri3_cut_def tri3_final_def copy_if_not_connected.simps)

theorem karger_stein_input_unchanged_witness:
  "karger_stein_union_find draw_last () tri3 = Some tri3_final \<and> input_graph tri3_final = tri3
   \<and> distribution_ok draw_last \<and> connected_graph tri3 \<and> edges_ok (n_vertices tri3) (edges tri3)
   \<and> 2 \<le> n_vertices tri3 \<and> length (edges tri3) \<le> 2147483648
   \<and> (\<exists>s'. karger_stein_union_find draw_last () tri3 = Some s' \<and> input_graph s' = tri3
           \<and> graphs s' = [])"
proof -
  note t = karger_stein_input_unchanged[of draw_last "()" tri3 tri3_final]
  from t karger_stein_tri3 have fr: "input_graph tri3_final = tri3" by blast
  have eok: "edges_ok (n_vertices tri3) (edges tri3)" by (simp add: edges_ok_def tri3_def)
  have n: "2 \<le> n_vertices tri3" by (simp add: tri3_def)
  have l: "length (edges tri3) \<le> 2147483648" by (simp add: tri3_def)
  from t distribution_ok_last connected_tri3 eok n l
  have ex: "\<exists>s'. karger_stein_union_find draw_last () tri3 = Some s' \<and> input_graph s' = tri3
           \<and> graphs s' = []" by blast
  from karger_stein_tri3 fr distribution_ok_last connected_tri3 eok n l ex show ?thesis
    by (intro conjI)
qed

text \<open>
  The claim as stated (every input graph) fails on the code: on the connected graph
  \<open>big3\<close> of three vertices and \<open>2\<^sup>3\<^sup>1 + 1\<close> edges between them, the call has no result,
  whatever the engine: the first graph of the stack has three vertices, and the loop of
  \<open>contract(graph, 2)\<close> builds a distribution \<open>{0, m}\<close> with \<open>m = -2\<^sup>3\<^sup>1\<close>.
\<close>

theorem karger_stein_overflow_counterexample:
  "connected_graph big3 \<and> edges_ok (n_vertices big3) (edges big3) \<and> 2 \<le> n_vertices big3
   \<and> length (edges big3) = 2147483649
   \<and> (\<forall>(draw :: 'g \<Rightarrow> int \<Rightarrow> int \<times> 'g) g.
        karger_stein_union_find draw g big3 = None)"
proof (intro conjI allI)
  show "connected_graph big3" by (rule connected_big3)
  show "edges_ok (n_vertices big3) (edges big3)" by (rule edges_ok_big3)
  show "2 \<le> n_vertices big3" by (simp add: big3_sel)
  show "length (edges big3) = 2147483649" by (simp only: big3_sel length_big_edges)
  fix draw :: "'g \<Rightarrow> int \<Rightarrow> int \<times> 'g" and g :: 'g
  let ?task = "\<lparr>n_vertices = 3, edges = big_edges, uf = UnionFind_init 3\<rparr>"
  let ?s = "\<lparr>input_graph = big3,
        best_minimum_cut = \<lparr>cut_size = 3, cut_uf = UnionFind_init 0\<rparr>,
        graphs = [?task], mt = g\<rparr>"
  have "contraction draw 2 g (UnionFind_init 3) big_edges = None"
    by (rule contraction_overflow[OF length_big_edges]) (simp add: UnionFind_init_def)
  then have "contract draw g ?task 2 = None" by (simp add: contract_def)
  then have "karger_stein_step draw ?s = None" by (simp add: karger_stein_step_def)
  then have "karger_stein_loop draw ?s = None" by (subst karger_stein_loop.simps) simp
  then show "karger_stein_union_find draw g big3 = None"
    by (simp add: karger_stein_union_find_def big3_sel)
qed

text \<open>
  Claim C5, as amended. A graph of the stack with more than six vertices (and at most
  \<open>2\<^sup>3\<^sup>1\<close> edges, \<open>task_ok\<close>) is replaced by two graphs: the loop body returns the state with
  the two children pushed in place of their parent, and nothing else changed but the
  engine. Each child is what \<open>contract\<close> returns for \<open>t\<close>, the value of
  \<open>1 + std::ceil(graph.n * INV_SQRT_2)\<close> in double arithmetic (\<open>t_of\<close>), called on the parent
  with its own structure: the parent keeps its structure through both calls and only
  has its edges permuted (the second call starts from the order the first one left and
  from the engine state the first one left). Each child has \<open>t\<close> vertices and a
  well-formed structure of \<open>t\<close> subsets that is the parent's with the endpoints of the
  consumed edges merged, and its edges are exactly the parent's edges after the cursor
  that cross its own partition; the edges before the cursor do not cross it (\<open>child_of\<close>).
  The number \<open>t\<close> satisfies \<open>2 \<le> t < n\<close>, and below \<open>2\<^sup>5\<^sup>1\<close> vertices it is
  \<open>1 + ceil(n / sqrt 2)\<close> or one less.
\<close>

theorem karger_stein_internal_step:
  assumes "distribution_ok draw" and "graphs s = graph # rest" and "6 < n_vertices graph"
    and "task_ok graph"
  shows "(\<exists>g1 es1 start1 child1 g2 es2 start2 child2.
       contract draw (mt s) graph (t_of (n_vertices graph))
         = Some (g1, graph\<lparr>edges := es1\<rparr>, child1)
     \<and> contract draw g1 (graph\<lparr>edges := es1\<rparr>) (t_of (n_vertices graph))
         = Some (g2, graph\<lparr>edges := es2\<rparr>, child2)
     \<and> karger_stein_step draw s = Some (s\<lparr>graphs := child2 # child1 # rest, mt := g2\<rparr>)
     \<and> karger_stein_loop draw s
         = karger_stein_loop draw (s\<lparr>graphs := child2 # child1 # rest, mt := g2\<rparr>)
     \<and> child_of graph (t_of (n_vertices graph)) es1 start1 child1
     \<and> child_of (graph\<lparr>edges := es1\<rparr>) (t_of (n_vertices graph)) es2 start2 child2)
   \<and> 2 \<le> t_of (n_vertices graph) \<and> t_of (n_vertices graph) < n_vertices graph
   \<and> (n_vertices graph < 2251799813685248 \<longrightarrow>
         \<lceil>real (n_vertices graph) / sqrt 2\<rceil> \<le> int (t_of (n_vertices graph))
       \<and> int (t_of (n_vertices graph)) \<le> 1 + \<lceil>real (n_vertices graph) / sqrt 2\<rceil>)"
proof -
  let ?t = "t_of (n_vertices graph)"
  from karger_stein_children[OF assms] obtain g1 es1 start1 child1 g2 es2 start2 child2 where
    c1: "contract draw (mt s) graph ?t = Some (g1, graph\<lparr>edges := es1\<rparr>, child1)"
    and c2: "contract draw g1 (graph\<lparr>edges := es1\<rparr>) ?t = Some (g2, graph\<lparr>edges := es2\<rparr>, child2)"
    and st: "karger_stein_step draw s = Some (s\<lparr>graphs := child2 # child1 # rest, mt := g2\<rparr>)"
    and ch1: "child_of graph ?t es1 start1 child1"
    and ch2: "child_of (graph\<lparr>edges := es1\<rparr>) ?t es2 start2 child2"
    by blast
  have unf: "karger_stein_loop draw s
      = karger_stein_loop draw (s\<lparr>graphs := child2 # child1 # rest, mt := g2\<rparr>)"
    using assms(2) st by (subst karger_stein_loop.simps) simp
  have "contract draw (mt s) graph ?t = Some (g1, graph\<lparr>edges := es1\<rparr>, child1)
     \<and> contract draw g1 (graph\<lparr>edges := es1\<rparr>) ?t = Some (g2, graph\<lparr>edges := es2\<rparr>, child2)
     \<and> karger_stein_step draw s = Some (s\<lparr>graphs := child2 # child1 # rest, mt := g2\<rparr>)
     \<and> karger_stein_loop draw s
         = karger_stein_loop draw (s\<lparr>graphs := child2 # child1 # rest, mt := g2\<rparr>)
     \<and> child_of graph ?t es1 start1 child1
     \<and> child_of (graph\<lparr>edges := es1\<rparr>) ?t es2 start2 child2"
    by (intro conjI) (rule c1 c2 st unf ch1 ch2)+
  then have ex: "\<exists>g1 es1 start1 child1 g2 es2 start2 child2.
       contract draw (mt s) graph ?t = Some (g1, graph\<lparr>edges := es1\<rparr>, child1)
     \<and> contract draw g1 (graph\<lparr>edges := es1\<rparr>) ?t = Some (g2, graph\<lparr>edges := es2\<rparr>, child2)
     \<and> karger_stein_step draw s = Some (s\<lparr>graphs := child2 # child1 # rest, mt := g2\<rparr>)
     \<and> karger_stein_loop draw s
         = karger_stein_loop draw (s\<lparr>graphs := child2 # child1 # rest, mt := g2\<rparr>)
     \<and> child_of graph ?t es1 start1 child1
     \<and> child_of (graph\<lparr>edges := es1\<rparr>) ?t es2 start2 child2"
    by (intro exI)
  have t2: "2 \<le> ?t" using t_of_ge2[of "n_vertices graph"] assms(3) by simp
  have tn: "?t < n_vertices graph" using assms(3) by (rule t_of_less)
  have tr: "n_vertices graph < 2251799813685248 \<longrightarrow>
         \<lceil>real (n_vertices graph) / sqrt 2\<rceil> \<le> int ?t
       \<and> int ?t \<le> 1 + \<lceil>real (n_vertices graph) / sqrt 2\<rceil>"
    using t_of_real[of "n_vertices graph"] by blast
  from ex t2 tn tr show ?thesis by (intro conjI)
qed

definition path7_es1 :: "Edge list" where
  "path7_es1 = [\<lparr>tail = 5, head = 6\<rparr>, \<lparr>tail = 1, head = 2\<rparr>, \<lparr>tail = 2, head = 3\<rparr>,
                \<lparr>tail = 3, head = 4\<rparr>, \<lparr>tail = 4, head = 5\<rparr>, \<lparr>tail = 0, head = 1\<rparr>]"

definition path7_child1 :: ContractedGraph where
  "path7_child1 = \<lparr>n_vertices = 6, edges = drop 1 path7_es1,
      uf = \<lparr>subsets = [\<lparr>id_f = 0, size_f = 1\<rparr>, \<lparr>id_f = 1, size_f = 1\<rparr>, \<lparr>id_f = 2, size_f = 1\<rparr>,
                        \<lparr>id_f = 3, size_f = 1\<rparr>, \<lparr>id_f = 4, size_f = 1\<rparr>, \<lparr>id_f = 5, size_f = 2\<rparr>,
                        \<lparr>id_f = 5, size_f = 1\<rparr>], nb_subsets = 6\<rparr>\<rparr>"

definition path7_child2 :: ContractedGraph where
  "path7_child2 = \<lparr>n_vertices = 6, edges = drop 1 (edges path7),
      uf = \<lparr>subsets = [\<lparr>id_f = 0, size_f = 2\<rparr>, \<lparr>id_f = 0, size_f = 1\<rparr>, \<lparr>id_f = 2, size_f = 1\<rparr>,
                        \<lparr>id_f = 3, size_f = 1\<rparr>, \<lparr>id_f = 4, size_f = 1\<rparr>, \<lparr>id_f = 5, size_f = 1\<rparr>,
                        \<lparr>id_f = 6, size_f = 1\<rparr>], nb_subsets = 6\<rparr>\<rparr>"

definition path7_state :: "unit ks_state" where
  "path7_state = \<lparr>input_graph = \<lparr>n_vertices = 7, edges = edges path7\<rparr>,
      best_minimum_cut = \<lparr>cut_size = 7, cut_uf = UnionFind_init 0\<rparr>, graphs = [path7], mt = ()\<rparr>"

lemma t_of_7: "t_of 7 = 6"
  by (simp add: t_eval)

lemma t_of_examples: "t_of 8 = 7 \<and> t_of 100 = 72 \<and> t_of 768398401 = 543339721"
  by (simp add: t_eval)

lemma contract_path7_1:
  "contract draw_last () path7 6 = Some ((), path7\<lparr>edges := path7_es1\<rparr>, path7_child1)"
  by (simp add: algo_eval path7_def path7_es1_def path7_child1_def)

lemma contract_path7_2:
  "contract draw_last () (path7\<lparr>edges := path7_es1\<rparr>) 6
     = Some ((), path7\<lparr>edges := edges path7\<rparr>, path7_child2)"
  by (simp add: algo_eval path7_def path7_es1_def path7_child2_def)

lemma step_path7:
  "karger_stein_step draw_last path7_state
     = Some (path7_state\<lparr>graphs := [path7_child2, path7_child1], mt := ()\<rparr>)"
proof -
  have g: "graphs path7_state = path7 # []" by (simp add: path7_state_def)
  have n: "6 < n_vertices path7" by (simp add: path7_def)
  have t: "t_of (n_vertices path7) = 6" by (simp add: path7_def t_of_7)
  have m: "mt path7_state = ()" by simp
  from karger_stein_step_internal[OF g n, of draw_last "()" "path7\<lparr>edges := path7_es1\<rparr>" path7_child1
      "()" "path7\<lparr>edges := edges path7\<rparr>" path7_child2]
    contract_path7_1 contract_path7_2
  show ?thesis unfolding t m by simp
qed

theorem karger_stein_internal_step_witness:
  "distribution_ok draw_last \<and> graphs path7_state = path7 # [] \<and> 6 < n_vertices path7
   \<and> task_ok path7
   \<and> t_of (n_vertices path7) = 6
   \<and> contract draw_last () path7 6 = Some ((), path7\<lparr>edges := path7_es1\<rparr>, path7_child1)
   \<and> contract draw_last () (path7\<lparr>edges := path7_es1\<rparr>) 6
        = Some ((), path7\<lparr>edges := edges path7\<rparr>, path7_child2)
   \<and> karger_stein_step draw_last path7_state
        = Some (path7_state\<lparr>graphs := [path7_child2, path7_child1], mt := ()\<rparr>)
   \<and> (\<exists>g1 es1 start1 child1 g2 es2 start2 child2.
       contract draw_last (mt path7_state) path7 (t_of (n_vertices path7))
         = Some (g1, path7\<lparr>edges := es1\<rparr>, child1)
     \<and> contract draw_last g1 (path7\<lparr>edges := es1\<rparr>) (t_of (n_vertices path7))
         = Some (g2, path7\<lparr>edges := es2\<rparr>, child2)
     \<and> karger_stein_step draw_last path7_state
         = Some (path7_state\<lparr>graphs := child2 # child1 # [], mt := g2\<rparr>)
     \<and> karger_stein_loop draw_last path7_state
         = karger_stein_loop draw_last (path7_state\<lparr>graphs := child2 # child1 # [], mt := g2\<rparr>)
     \<and> child_of path7 (t_of (n_vertices path7)) es1 start1 child1
     \<and> child_of (path7\<lparr>edges := es1\<rparr>) (t_of (n_vertices path7)) es2 start2 child2)
   \<and> 2 \<le> t_of (n_vertices path7) \<and> t_of (n_vertices path7) < n_vertices path7
   \<and> n_vertices path7 < 2251799813685248
   \<and> \<lceil>real (n_vertices path7) / sqrt 2\<rceil> \<le> int (t_of (n_vertices path7))
   \<and> int (t_of (n_vertices path7)) \<le> 1 + \<lceil>real (n_vertices path7) / sqrt 2\<rceil>"
  (is "?A \<and> ?B \<and> ?C \<and> ?D \<and> ?E \<and> ?F \<and> ?G \<and> ?S \<and> ?H \<and> ?T2 \<and> ?TN \<and> ?N \<and> ?LO \<and> ?UP")
proof -
  have a: ?A by (rule distribution_ok_last)
  have b: ?B by (simp add: path7_state_def)
  have c: ?C by (simp add: path7_def)
  have d: ?D by (rule task_ok_path7)
  have e: ?E by (simp add: path7_def t_of_7)
  have n: ?N by (simp add: path7_def)
  note t = karger_stein_internal_step[OF a b c d]
  from t have h: ?H by (rule conjunct1)
  from t have t2: ?T2 and tn: ?TN by blast+
  from t n have lo: ?LO and up: ?UP by blast+
  from a b c d e contract_path7_1 contract_path7_2 step_path7 h t2 tn n lo up show ?thesis
    by (intro conjI)
qed

text \<open>
  The claim as stated (\<open>t = 1 + ceil(n / sqrt 2)\<close>) fails on the code. For the path of
  \<open>n = 131836323\<close> vertices, on top of the stack, \<open>n / sqrt 2\<close> is \<open>93222358.000000002...\<close>,
  so that \<open>1 + ceil(n / sqrt 2) = 93222360\<close>; the double product \<open>n * INV_SQRT_2\<close> is
  rounded to \<open>93222358\<close>, the code computes \<open>t = 93222359\<close>, and the loop body pushes two
  children of \<open>93222359\<close> vertices.
\<close>

definition path_state :: "nat \<Rightarrow> unit ks_state" where
  "path_state n = \<lparr>input_graph = \<lparr>n_vertices = n, edges = edges (path_graph n)\<rparr>,
      best_minimum_cut = \<lparr>cut_size = n, cut_uf = UnionFind_init 0\<rparr>,
      graphs = [path_graph n], mt = ()\<rparr>"

theorem karger_stein_t_counterexample:
  "task_ok (path_graph 131836323)
   \<and> graphs (path_state 131836323) = [path_graph 131836323]
   \<and> n_vertices (path_graph 131836323) = 131836323
   \<and> t_of 131836323 = 93222359
   \<and> 1 + \<lceil>real 131836323 / sqrt 2\<rceil> = 93222360
   \<and> (\<exists>g2 child1 child2.
         karger_stein_step draw_first (path_state 131836323)
           = Some (path_state 131836323\<lparr>graphs := [child2, child1], mt := g2\<rparr>)
       \<and> n_vertices child1 = 93222359 \<and> n_vertices child2 = 93222359)"
proof -
  have ok: "task_ok (path_graph 131836323)" by (rule task_ok_path_graph) simp_all
  have gs: "graphs (path_state 131836323) = path_graph 131836323 # []"
    unfolding path_state_def by simp
  have nv: "n_vertices (path_graph 131836323) = 131836323" by (rule path_graph_sel)
  have n: "6 < n_vertices (path_graph 131836323)" unfolding nv by simp
  have t: "t_of 131836323 = 93222359" by (simp add: t_eval)
  have "\<lceil>real 131836323 / sqrt 2\<rceil> = int (Suc 93222358)"
    by (rule ceiling_div_sqrt2) simp_all
  then have c: "1 + \<lceil>real 131836323 / sqrt 2\<rceil> = 93222360" by simp
  from karger_stein_children[OF distribution_ok_first gs n ok]
  obtain g1 es1 start1 child1 g2 es2 start2 child2 where
    st: "karger_stein_step draw_first (path_state 131836323)
          = Some (path_state 131836323\<lparr>graphs := child2 # child1 # [], mt := g2\<rparr>)"
    and ch1: "child_of (path_graph 131836323) (t_of (n_vertices (path_graph 131836323)))
                es1 start1 child1"
    and ch2: "child_of (path_graph 131836323\<lparr>edges := es1\<rparr>)
                (t_of (n_vertices (path_graph 131836323))) es2 start2 child2"
    by blast
  from ch1 have n1: "n_vertices child1 = 93222359" unfolding nv t by (simp add: child_of_def)
  from ch2 have n2: "n_vertices child2 = 93222359" unfolding nv t by (simp add: child_of_def)
  have ex: "\<exists>g2 child1 child2.
         karger_stein_step draw_first (path_state 131836323)
           = Some (path_state 131836323\<lparr>graphs := [child2, child1], mt := g2\<rparr>)
       \<and> n_vertices child1 = 93222359 \<and> n_vertices child2 = 93222359"
    using st n1 n2 by (intro exI conjI)
  from ok gs nv t c ex show ?thesis by (intro conjI)
qed

subsection \<open>Where the code leaves the claims\<close>

lemma foldl_partition:
  "foldl (\<lambda>(P, Q) i. if p i then (P @ [i], Q) else (P, Q @ [i])) (A, B) xs
     = (A @ filter p xs, B @ filter (\<lambda>i. \<not> p i) xs)"
  by (induction xs arbitrary: A B) simp_all

text \<open>
  What \<open>get_partitions\<close> returns: the indices whose \<open>id\<close> field equals that of element \<open>0\<close>,
  and the others, each in ascending order; they are disjoint and cover \<open>0 .. n - 1\<close>.
\<close>

lemma get_partitions_filter:
  assumes "subsets (cut_uf c) \<noteq> []"
  shows "get_partitions c = Some
     (filter (\<lambda>i. id_f (subsets (cut_uf c) ! i) = id_f (subsets (cut_uf c) ! 0))
         [0..<length (subsets (cut_uf c))],
      filter (\<lambda>i. id_f (subsets (cut_uf c) ! i) \<noteq> id_f (subsets (cut_uf c) ! 0))
         [0..<length (subsets (cut_uf c))])"
  using assms by (simp add: get_partitions_def Let_def foldl_partition)

lemma get_partitions_cover:
  assumes "get_partitions c = Some (P, Q)"
  shows "sorted P \<and> sorted Q \<and> distinct P \<and> distinct Q \<and> set P \<inter> set Q = {}
     \<and> set P \<union> set Q = {0..<length (subsets (cut_uf c))}"
proof -
  from assms have ne: "subsets (cut_uf c) \<noteq> []"
    by (auto simp: get_partitions_def Let_def split: if_splits)
  from get_partitions_filter[OF ne] assms have
    P: "P = filter (\<lambda>i. id_f (subsets (cut_uf c) ! i) = id_f (subsets (cut_uf c) ! 0))
         [0..<length (subsets (cut_uf c))]"
    and Q: "Q = filter (\<lambda>i. id_f (subsets (cut_uf c) ! i) \<noteq> id_f (subsets (cut_uf c) ! 0))
         [0..<length (subsets (cut_uf c))]" by simp_all
  have "sorted P" "sorted Q" unfolding P Q by (rule sorted_wrt_filter, rule sorted_upt)+
  moreover have "distinct P" "distinct Q" unfolding P Q by simp_all
  moreover have "set P \<inter> set Q = {}" unfolding P Q by auto
  moreover have "set P \<union> set Q = {0..<length (subsets (cut_uf c))}" unfolding P Q by auto
  ultimately show ?thesis by (intro conjI)
qed

definition tree5_cut :: GraphCut where
  "tree5_cut = \<lparr>cut_size = 1,
       cut_uf = \<lparr>subsets = [\<lparr>id_f = 0, size_f = 4\<rparr>, \<lparr>id_f = 0, size_f = 1\<rparr>,
                             \<lparr>id_f = 0, size_f = 2\<rparr>, \<lparr>id_f = 2, size_f = 1\<rparr>,
                             \<lparr>id_f = 4, size_f = 1\<rparr>], nb_subsets = 2\<rparr>\<rparr>"

text \<open>
  Claim C1 fails on the code. On the connected graph \<open>tree5\<close> (edges 0-1, 2-3, 0-2, 0-4),
  when every draw is \<open>0\<close>, \<open>karger_union_find\<close> returns a cut of size 1 whose structure has
  two subsets, \<open>{0, 1, 2, 3}\<close> and \<open>{4}\<close>, with the chain \<open>3 \<rightarrow> 2 \<rightarrow> 0\<close> left uncompressed.
  \<open>get_partitions\<close> compares \<open>id\<close> fields, not roots, and puts vertex \<open>3\<close>, whose root is the
  root of vertex \<open>0\<close>, into the second sequence.
\<close>

theorem get_partitions_splits_a_subset:
  "karger_union_find draw_first () tree5 = Some ((), tree5_cut, tree5)
   \<and> nb_subsets (cut_uf tree5_cut) = 2
   \<and> find_root (subsets (cut_uf tree5_cut)) 3 = find_root (subsets (cut_uf tree5_cut)) 0
   \<and> get_partitions tree5_cut = Some ([0, 1, 2], [3, 4])"
  by (simp add: algo_eval tree5_def tree5_cut_def get_partitions_def)

text \<open>
  Claim C2 fails on the code. On the connected graph of two vertices joined by two
  parallel edges, whatever the engine, the only leaf has a cut of size \<open>2\<close>, which is
  not less than the sentinel's \<open>cut_size = n = 2\<close>: \<open>std::min\<close> keeps the sentinel, and the
  structure returned is the sentinel's \<open>UnionFind(0)\<close>, with no subset at all.
\<close>

theorem karger_stein_returns_sentinel:
  "karger_stein_union_find draw g dbl2
     = Some \<lparr>input_graph = dbl2,
             best_minimum_cut = \<lparr>cut_size = 2, cut_uf = \<lparr>subsets = [], nb_subsets = 0\<rparr>\<rparr>,
             graphs = [], mt = g\<rparr>"
  by (simp add: algo_eval dbl2_def)

text \<open>
  Claim C3 fails on the code for \<open>karger_stein_union_find\<close>. On the triangle with every
  edge doubled, when every draw is \<open>0\<close>, the only leaf finds a cut of size \<open>4\<close>, the sentinel
  of size \<open>n = 3\<close> is kept and returned: its \<open>cut_size\<close> is \<open>3\<close>, which no partition of the
  vertices into two parts cuts, and its structure has no element, so that counting the
  crossing edges on it has no result. (For \<open>karger_union_find\<close> the claim holds on graphs
  of at most \<open>2\<^sup>3\<^sup>1\<close> edges, lemma \<open>karger_union_find_cut\<close>; and there it holds of every
  result of \<open>karger_stein_union_find\<close> that is not the sentinel, lemma
  \<open>karger_stein_result\<close>.)
\<close>

theorem karger_stein_cut_size_of_no_cut:
  "karger_stein_union_find draw_first () dtri3
     = Some \<lparr>input_graph = dtri3,
             best_minimum_cut = \<lparr>cut_size = 3, cut_uf = \<lparr>subsets = [], nb_subsets = 0\<rparr>\<rparr>,
             graphs = [], mt = ()\<rparr>
   \<and> (\<forall>f :: nat \<Rightarrow> bool. length (filter (\<lambda>e. f (tail e) \<noteq> f (head e)) (edges dtri3)) \<noteq> 3)
   \<and> count_if_not_connected \<lparr>subsets = [], nb_subsets = 0\<rparr> (edges dtri3) = None"
proof (intro conjI allI)
  show "karger_stein_union_find draw_first () dtri3
     = Some \<lparr>input_graph = dtri3,
             best_minimum_cut = \<lparr>cut_size = 3, cut_uf = \<lparr>subsets = [], nb_subsets = 0\<rparr>\<rparr>,
             graphs = [], mt = ()\<rparr>"
    by (simp add: algo_eval dtri3_def)
  show "count_if_not_connected \<lparr>subsets = [], nb_subsets = 0\<rparr> (edges dtri3) = None"
    by (simp add: dtri3_def connected_uf_def find_uf_def find_root.simps)
  fix f :: "nat \<Rightarrow> bool"
  show "length (filter (\<lambda>e. f (tail e) \<noteq> f (head e)) (edges dtri3)) \<noteq> 3"
    by (cases "f 0"; cases "f 1"; cases "f 2") (simp_all add: dtri3_def)
qed

end
